theory Spec2Isabelle
  imports Main "HOL-Library.Sublist"
begin

section \<open>The platform interface used by index.ts\<close>

text \<open>
  The program is a script over Node's \<open>node:fs\<close>, \<open>node:path\<close> and \<open>node:os\<close>.
  Every function it imports from there is a field of the record \<open>sys\<close>; the filesystem
  is an explicit state of type \<open>'s\<close> that the mutating calls return updated. A call that
  throws returns \<open>Inl\<close> of the error code and leaves the state as it was.
\<close>

datatype errno = ENOENT | EEXIST | EISDIR | ENOTDIR | EINVAL | EACCES | ELOOP | EIO

text \<open>What \<open>lstatSync\<close> and a \<open>Dirent\<close> report about an entry (neither follows a link).\<close>

datatype ftype = RegularFile | Directory | SymbolicLink | OtherType

fun isDirectory :: "ftype \<Rightarrow> bool" where
  "isDirectory Directory = True"
| "isDirectory _ = False"

fun isSymbolicLink :: "ftype \<Rightarrow> bool" where
  "isSymbolicLink SymbolicLink = True"
| "isSymbolicLink _ = False"

record dirent =
  ent_name :: string
  ent_type :: ftype

record 's sys =
  homedir :: string
  join :: "string \<Rightarrow> string \<Rightarrow> string"
  resolve :: "string \<Rightarrow> string"
  existsSync :: "'s \<Rightarrow> string \<Rightarrow> bool"
  readdirSync :: "'s \<Rightarrow> string \<Rightarrow> errno + dirent list"
  lstatSync :: "'s \<Rightarrow> string \<Rightarrow> errno + ftype"
  readlinkSync :: "'s \<Rightarrow> string \<Rightarrow> errno + string"
  mkdirSync :: "'s \<Rightarrow> string \<Rightarrow> errno + 's"
  symlinkSync :: "'s \<Rightarrow> string \<Rightarrow> string \<Rightarrow> errno + 's"
  unlinkSync :: "'s \<Rightarrow> string \<Rightarrow> errno + 's"

text \<open>
  \<open>mkdirSync\<close> is the call with \<open>{ recursive: true }\<close>, the only one the program makes;
  \<open>symlinkSync sys s target path\<close> keeps Node's argument order; \<open>join\<close> takes two
  arguments, and the program's one call with three is two nested calls. A \<open>char\<close> of a
  \<open>string\<close> stands for one code unit of the JavaScript string, so that \<open>length\<close> is
  the program's \<open>.length\<close>.
  How the process ends when it does not return: \<open>process.exit(n)\<close> or an exception
  that nothing catches.
\<close>

datatype failure = Exit nat | Uncaught errno

section \<open>JavaScript string operations\<close>

definition startsWith :: "string \<Rightarrow> string \<Rightarrow> bool" where
  "startsWith s p = prefix p s"

fun lastIndexFrom :: "string \<Rightarrow> char \<Rightarrow> nat \<Rightarrow> int" where
  "lastIndexFrom s c 0 = - 1"
| "lastIndexFrom s c (Suc i) = (if s ! i = c then int i else lastIndexFrom s c i)"

text \<open>\<open>s.lastIndexOf(c)\<close> for a one-character pattern: the scan runs from the end, \<open>-1\<close> when absent.\<close>

definition lastIndexOf :: "string \<Rightarrow> char \<Rightarrow> int" where
  "lastIndexOf s c = lastIndexFrom s c (length s)"

section \<open>Path encoding\<close>

text \<open>\<open>prefix.replaceAll("/", "-")\<close>\<close>

definition encodePrefix :: "string \<Rightarrow> string" where
  "encodePrefix p = map (\<lambda>c. if c = CHR ''/'' then CHR ''-'' else c) p"

section \<open>Auto-detection of the remote prefix\<close>

text \<open>The inner \<open>while\<close> loop of \<open>detectRemotePrefix\<close>: the index where the two strings part.\<close>

function commonLen :: "string \<Rightarrow> string \<Rightarrow> nat \<Rightarrow> nat" where
  "commonLen pfx entry i =
     (if i < length pfx \<and> i < length entry \<and> pfx ! i = entry ! i
      then commonLen pfx entry (i + 1) else i)"
  by pat_completeness auto
termination
  by (relation "measure (\<lambda>(pfx, entry, i). length pfx - i)") auto

declare commonLen.simps [simp del]

text \<open>Lines 174 to 181: the longest common prefix, starting from the first entry.\<close>

definition commonPrefixLoop :: "string \<Rightarrow> string list \<Rightarrow> string" where
  "commonPrefixLoop e0 rest = foldl (\<lambda>pfx entry. take (commonLen pfx entry 0) pfx) e0 rest"

text \<open>Lines 184 to 187: cut at the last hyphen, unless that hyphen is the first character.\<close>

definition trimToHyphen :: "string \<Rightarrow> string" where
  "trimToHyphen pfx =
     (let lastHyphen = lastIndexOf pfx CHR ''-''
      in if lastHyphen > 0 then take (nat lastHyphen) pfx else pfx)"

text \<open>The part of \<open>detectRemotePrefix\<close> after the directory has been read and filtered.\<close>

definition inferPrefix :: "string list \<Rightarrow> string option" where
  "inferPrefix entries =
     (case entries of
        [] \<Rightarrow> None
      | e0 # rest \<Rightarrow>
          let pfx = trimToHyphen (commonPrefixLoop e0 rest)
          in if length pfx < 3 then None else Some pfx)"

definition detectRemotePrefix :: "'s sys \<Rightarrow> 's \<Rightarrow> string \<Rightarrow> errno + string option" where
  "detectRemotePrefix sys s projectsPath =
     (case readdirSync sys s projectsPath of
        Inl e \<Rightarrow> Inl e
      | Inr ents \<Rightarrow> Inr (inferPrefix (filter (\<lambda>e. startsWith e ''-'') (map ent_name ents))))"

subsection \<open>The inference as section 4.2 of the specification words it\<close>

text \<open>
  Trim the candidate backward to its last reserved character: everything from that
  character on is dropped (nothing is left when the candidate has no such character
  after its first position).
\<close>

definition specTrim :: "string \<Rightarrow> string" where
  "specTrim c = rev (drop 1 (dropWhile (\<lambda>x. x \<noteq> CHR ''-'') (rev c)))"

definition specInferPrefix :: "string list \<Rightarrow> string option" where
  "specInferPrefix names =
     (case names of
        [] \<Rightarrow> None
      | n # ns \<Rightarrow>
          let t = specTrim (foldl longest_common_prefix n ns)
          in if length t < 3 then None else Some t)"

text \<open>
  \<open>r\<close> stops inside a segment of \<open>name\<close>: it ends with a character of a segment, and
  the next character of the name belongs to that segment too.
\<close>

definition endsMidSegment :: "string \<Rightarrow> string \<Rightarrow> bool" where
  "endsMidSegment r name =
     (r \<noteq> [] \<and> last r \<noteq> CHR ''-'' \<and> prefix r name \<and> length r < length name
      \<and> name ! length r \<noteq> CHR ''-'')"

section \<open>Core logic\<close>

datatype localState = Missing | SymlinkCorrect | SymlinkWrong | DirectoryExists

record projectMapping =
  sourceDirName :: string
  sourceFullPath :: string
  localDirName :: string
  localFullPath :: string
  localState :: localState

definition localClaudeProjects :: "'s sys \<Rightarrow> string" where
  "localClaudeProjects sys = join sys (join sys (homedir sys) ''.claude'') ''projects''"

text \<open>Lines 234 to 247: the state of the local path, with the \<open>try\<close>/\<open>catch\<close> around the inspection.\<close>

definition classify :: "'s sys \<Rightarrow> 's \<Rightarrow> string \<Rightarrow> string \<Rightarrow> localState" where
  "classify sys s localFull sourceFull =
     (if existsSync sys s localFull then
        (case lstatSync sys s localFull of
           Inl e \<Rightarrow> Missing
         | Inr stat \<Rightarrow>
             if isSymbolicLink stat then
               (case readlinkSync sys s localFull of
                  Inl e \<Rightarrow> Missing
                | Inr target \<Rightarrow>
                    if resolve sys target = resolve sys sourceFull then SymlinkCorrect else SymlinkWrong)
             else DirectoryExists)
      else Missing)"

text \<open>The record pushed at line 249 for an entry that is kept.\<close>

definition mappingOf ::
  "'s sys \<Rightarrow> 's \<Rightarrow> string \<Rightarrow> string \<Rightarrow> string \<Rightarrow> dirent \<Rightarrow> projectMapping" where
  "mappingOf sys s sourcePath encodedRemote encodedLocal entry =
     \<lparr> sourceDirName = ent_name entry,
       sourceFullPath = join sys sourcePath (ent_name entry),
       localDirName = encodedLocal @ drop (length encodedRemote) (ent_name entry),
       localFullPath =
         join sys (localClaudeProjects sys) (encodedLocal @ drop (length encodedRemote) (ent_name entry)),
       localState =
         classify sys s
           (join sys (localClaudeProjects sys) (encodedLocal @ drop (length encodedRemote) (ent_name entry)))
           (join sys sourcePath (ent_name entry)) \<rparr>"

text \<open>Which entries are kept: lines 223 and 226.\<close>

definition kept :: "string \<Rightarrow> dirent \<Rightarrow> bool" where
  "kept encodedRemote entry =
     ((isDirectory (ent_type entry) \<or> isSymbolicLink (ent_type entry))
      \<and> startsWith (ent_name entry) encodedRemote)"

text \<open>The body of the \<open>for\<close> loop of \<open>discoverMappings\<close>; \<open>None\<close> is \<open>continue\<close>.\<close>

definition discoverEntry ::
  "'s sys \<Rightarrow> 's \<Rightarrow> string \<Rightarrow> string \<Rightarrow> string \<Rightarrow> dirent \<Rightarrow> projectMapping option" where
  "discoverEntry sys s sourcePath encodedRemote encodedLocal entry =
     (if \<not> isDirectory (ent_type entry) \<and> \<not> isSymbolicLink (ent_type entry) then None
      else
        let dirName = ent_name entry in
        if \<not> startsWith dirName encodedRemote then None
        else
          let suffix = drop (length encodedRemote) dirName;
              localName = encodedLocal @ suffix;
              sourceFull = join sys sourcePath dirName;
              localFull = join sys (localClaudeProjects sys) localName
          in Some \<lparr> sourceDirName = dirName, sourceFullPath = sourceFull, localDirName = localName,
                    localFullPath = localFull, localState = classify sys s localFull sourceFull \<rparr>)"

definition discoverMappings ::
  "'s sys \<Rightarrow> 's \<Rightarrow> string \<Rightarrow> string \<Rightarrow> string \<Rightarrow> failure + projectMapping list" where
  "discoverMappings sys s sourcePath remotePrefix localPrefix =
     (let encodedRemote = encodePrefix remotePrefix;
          encodedLocal = encodePrefix localPrefix
      in if \<not> existsSync sys s sourcePath then Inl (Exit 1)
         else
           (case readdirSync sys s sourcePath of
              Inl e \<Rightarrow> Inl (Uncaught e)
            | Inr entries \<Rightarrow>
                Inr (List.map_filter (discoverEntry sys s sourcePath encodedRemote encodedLocal)
                       entries)))"

text \<open>The filter \<open>linkable\<close> of \<open>cmdWizard\<close> and \<open>cmdScan\<close>: the states for which \<open>doLink\<close> makes a link.\<close>

definition linkable :: "projectMapping \<Rightarrow> bool" where
  "linkable m = (localState m = Missing \<or> localState m = SymlinkWrong)"

record linkResult =
  created :: nat
  updated :: nat
  skipped :: nat

text \<open>
  The \<open>for\<close> loop of \<open>doLink\<close>. An exception leaves the loop at once: the result is then
  the filesystem as the calls before it left it, with the error.
\<close>

fun linkLoop :: "'s sys \<Rightarrow> 's \<Rightarrow> linkResult \<Rightarrow> projectMapping list \<Rightarrow> 's \<times> (errno + linkResult)" where
  "linkLoop sys s r [] = (s, Inr r)"
| "linkLoop sys s r (m # ms) =
     (case localState m of
        SymlinkCorrect \<Rightarrow> linkLoop sys s (r\<lparr>skipped := skipped r + 1\<rparr>) ms
      | SymlinkWrong \<Rightarrow>
          (case unlinkSync sys s (localFullPath m) of
             Inl e \<Rightarrow> (s, Inl e)
           | Inr s1 \<Rightarrow>
               (case symlinkSync sys s1 (sourceFullPath m) (localFullPath m) of
                  Inl e \<Rightarrow> (s1, Inl e)
                | Inr s2 \<Rightarrow> linkLoop sys s2 (r\<lparr>updated := updated r + 1\<rparr>) ms))
      | DirectoryExists \<Rightarrow> linkLoop sys s (r\<lparr>skipped := skipped r + 1\<rparr>) ms
      | Missing \<Rightarrow>
          (case symlinkSync sys s (sourceFullPath m) (localFullPath m) of
             Inl e \<Rightarrow> (s, Inl e)
           | Inr s1 \<Rightarrow> linkLoop sys s1 (r\<lparr>created := created r + 1\<rparr>) ms))"

text \<open>Lines 265 to 268: create the local projects directory when it is not there.\<close>

definition ensureLocalDir :: "'s sys \<Rightarrow> 's \<Rightarrow> errno + 's" where
  "ensureLocalDir sys s =
     (if \<not> existsSync sys s (localClaudeProjects sys)
      then mkdirSync sys s (localClaudeProjects sys) else Inr s)"

definition doLink :: "'s sys \<Rightarrow> 's \<Rightarrow> projectMapping list \<Rightarrow> 's \<times> (errno + linkResult)" where
  "doLink sys s mappings =
     (case ensureLocalDir sys s of
        Inl e \<Rightarrow> (s, Inl e)
      | Inr s0 \<Rightarrow> linkLoop sys s0 \<lparr> created = 0, updated = 0, skipped = 0 \<rparr> mappings)"

section \<open>Non-interactive commands\<close>

text \<open>What the commands print is left out; each returns the filesystem and how it ended.\<close>

definition cmdScan ::
  "'s sys \<Rightarrow> 's \<Rightarrow> string \<Rightarrow> string \<Rightarrow> string \<Rightarrow> failure + projectMapping list" where
  "cmdScan sys s sourcePath remotePrefix localPrefix =
     discoverMappings sys s sourcePath remotePrefix localPrefix"

definition cmdLink ::
  "'s sys \<Rightarrow> 's \<Rightarrow> string \<Rightarrow> string \<Rightarrow> string \<Rightarrow> 's \<times> (failure + linkResult)" where
  "cmdLink sys s sourcePath remotePrefix localPrefix =
     (case discoverMappings sys s sourcePath remotePrefix localPrefix of
        Inl f \<Rightarrow> (s, Inl f)
      | Inr mappings \<Rightarrow>
          (case doLink sys s mappings of
             (s', Inl e) \<Rightarrow> (s', Inl (Uncaught e))
           | (s', Inr r) \<Rightarrow> (s', Inr r)))"

text \<open>The \<open>for\<close> loop of \<open>cmdUnlink\<close>, with its counter \<open>removed\<close>.\<close>

fun unlinkLoop :: "'s sys \<Rightarrow> 's \<Rightarrow> nat \<Rightarrow> projectMapping list \<Rightarrow> 's \<times> (errno + nat)" where
  "unlinkLoop sys s removed [] = (s, Inr removed)"
| "unlinkLoop sys s removed (m # ms) =
     (if localState m = SymlinkCorrect \<or> localState m = SymlinkWrong then
        (case unlinkSync sys s (localFullPath m) of
           Inl e \<Rightarrow> (s, Inl e)
         | Inr s1 \<Rightarrow> unlinkLoop sys s1 (removed + 1) ms)
      else unlinkLoop sys s removed ms)"

definition cmdUnlink ::
  "'s sys \<Rightarrow> 's \<Rightarrow> string \<Rightarrow> string \<Rightarrow> string \<Rightarrow> 's \<times> (failure + nat)" where
  "cmdUnlink sys s sourcePath remotePrefix localPrefix =
     (case discoverMappings sys s sourcePath remotePrefix localPrefix of
        Inl f \<Rightarrow> (s, Inl f)
      | Inr mappings \<Rightarrow>
          (case unlinkLoop sys s 0 mappings of
             (s', Inl e) \<Rightarrow> (s', Inl (Uncaught e))
           | (s', Inr removed) \<Rightarrow> (s', Inr removed)))"

section \<open>A filesystem to run the program on\<close>

text \<open>
  A concrete instance of \<open>sys\<close>. The filesystem is the list of its entries in enumeration
  order, each under its absolute path in normal form (no \<open>.\<close> or \<open>..\<close> segment, no
  doubled or trailing separator); the root is the empty path and is always a directory.
  On such paths \<open>path.join\<close> with one name is concatenation with a separator.
  A directory is addressed by its own path: a path whose entry is a symbolic link is not
  a directory for \<open>readdirSync\<close> or as the parent of a new entry.
\<close>

datatype node = File | Dir | Symlink string

type_synonym fs = "(string \<times> node) list"

fun ftypeOf :: "node \<Rightarrow> ftype" where
  "ftypeOf File = RegularFile"
| "ftypeOf Dir = Directory"
| "ftypeOf (Symlink t) = SymbolicLink"

definition dirname :: "string \<Rightarrow> string" where
  "dirname p = rev (drop 1 (dropWhile (\<lambda>c. c \<noteq> CHR ''/'') (rev p)))"

text \<open>Where the target \<open>t\<close> of a link at \<open>p\<close> points: a relative target starts at the link's directory.\<close>

definition linkDest :: "string \<Rightarrow> string \<Rightarrow> string" where
  "linkDest p t = (if startsWith t ''/'' then t else dirname p @ ''/'' @ t)"

text \<open>\<open>stat\<close>: follow symbolic links, at most \<open>n\<close> of them (the kernel gives up with ELOOP).\<close>

fun follow :: "nat \<Rightarrow> fs \<Rightarrow> string \<Rightarrow> node option" where
  "follow 0 fs p = None"
| "follow (Suc n) fs p =
     (case map_of fs p of
        Some (Symlink t) \<Rightarrow> follow n fs (linkDest p t)
      | r \<Rightarrow> r)"

text \<open>\<open>existsSync\<close> is \<open>stat\<close> without the error: false for a link whose target is not there.\<close>

definition fs_existsSync :: "fs \<Rightarrow> string \<Rightarrow> bool" where
  "fs_existsSync fs p = (follow 40 fs p \<noteq> None)"

definition fs_lstatSync :: "fs \<Rightarrow> string \<Rightarrow> errno + ftype" where
  "fs_lstatSync fs p = (case map_of fs p of None \<Rightarrow> Inl ENOENT | Some n \<Rightarrow> Inr (ftypeOf n))"

definition fs_readlinkSync :: "fs \<Rightarrow> string \<Rightarrow> errno + string" where
  "fs_readlinkSync fs p =
     (case map_of fs p of
        None \<Rightarrow> Inl ENOENT
      | Some (Symlink t) \<Rightarrow> Inr t
      | Some _ \<Rightarrow> Inl EINVAL)"

definition isDirAt :: "fs \<Rightarrow> string \<Rightarrow> bool" where
  "isDirAt fs d = (d = [] \<or> map_of fs d = Some Dir)"

text \<open>The name under which \<open>q\<close> is an entry of the directory \<open>d\<close>, if it is one.\<close>

definition childName :: "string \<Rightarrow> string \<Rightarrow> string option" where
  "childName d q =
     (let nm = drop (length d + 1) q
      in if prefix (d @ ''/'') q \<and> nm \<noteq> [] \<and> CHR ''/'' \<notin> set nm then Some nm else None)"

definition entriesOf :: "string \<Rightarrow> fs \<Rightarrow> dirent list" where
  "entriesOf d fs =
     List.map_filter
       (\<lambda>(q, n). map_option (\<lambda>nm. \<lparr> ent_name = nm, ent_type = ftypeOf n \<rparr>) (childName d q)) fs"

definition fs_readdirSync :: "fs \<Rightarrow> string \<Rightarrow> errno + dirent list" where
  "fs_readdirSync fs d =
     (if isDirAt fs d then Inr (entriesOf d fs)
      else if map_of fs d = None then Inl ENOENT else Inl ENOTDIR)"

text \<open>The path and every proper prefix of it that ends before a separator, shortest first.\<close>

definition ancestors :: "string \<Rightarrow> string list" where
  "ancestors p = [take i p. i \<leftarrow> [1..<length p], p ! i = CHR ''/''] @ [p]"

fun mkdirStep :: "errno + fs \<Rightarrow> string \<Rightarrow> errno + fs" where
  "mkdirStep (Inl e) a = Inl e"
| "mkdirStep (Inr fs) a =
     (case map_of fs a of
        None \<Rightarrow> Inr (fs @ [(a, Dir)])
      | Some Dir \<Rightarrow> Inr fs
      | Some File \<Rightarrow> Inl ENOTDIR
      | Some (Symlink t) \<Rightarrow> Inl EEXIST)"

definition fs_mkdirSync :: "fs \<Rightarrow> string \<Rightarrow> errno + fs" where
  "fs_mkdirSync fs p = foldl mkdirStep (Inr fs) (ancestors p)"

definition fs_symlinkSync :: "fs \<Rightarrow> string \<Rightarrow> string \<Rightarrow> errno + fs" where
  "fs_symlinkSync fs target p =
     (if map_of fs p \<noteq> None then Inl EEXIST
      else if isDirAt fs (dirname p) then Inr (fs @ [(p, Symlink target)])
      else if map_of fs (dirname p) = None then Inl ENOENT else Inl ENOTDIR)"

definition fs_unlinkSync :: "fs \<Rightarrow> string \<Rightarrow> errno + fs" where
  "fs_unlinkSync fs p =
     (case map_of fs p of
        None \<Rightarrow> Inl ENOENT
      | Some Dir \<Rightarrow> Inl EISDIR
      | Some _ \<Rightarrow> Inr (filter (\<lambda>e. fst e \<noteq> p) fs))"

text \<open>A well-formed filesystem has one entry for a path, and none under the empty path.\<close>

definition wfFs :: "fs \<Rightarrow> bool" where
  "wfFs fs = (distinct (map fst fs) \<and> [] \<notin> fst ` set fs)"

text \<open>The test of \<open>cmdUnlink\<close>, line 518.\<close>

definition isLinked :: "projectMapping \<Rightarrow> bool" where
  "isLinked m = (localState m = SymlinkCorrect \<or> localState m = SymlinkWrong)"

subsection \<open>\<open>path.resolve\<close> with one argument\<close>

fun splitSlash :: "string \<Rightarrow> string list" where
  "splitSlash [] = [[]]"
| "splitSlash (c # cs) =
     (if c = CHR ''/'' then [] # splitSlash cs
      else (case splitSlash cs of [] \<Rightarrow> [[c]] | w # ws \<Rightarrow> (c # w) # ws))"

text \<open>Drop empty and \<open>.\<close> segments; \<open>..\<close> removes the segment before it and stays at the root.\<close>

fun normSegs :: "string list \<Rightarrow> string list \<Rightarrow> string list" where
  "normSegs acc [] = rev acc"
| "normSegs acc (seg # segs) =
     (if seg = [] \<or> seg = ''.'' then normSegs acc segs
      else if seg = ''..'' then normSegs (tl acc) segs
      else normSegs (seg # acc) segs)"

definition fs_resolve :: "string \<Rightarrow> string \<Rightarrow> string" where
  "fs_resolve cwd p =
     (let abs = (if startsWith p ''/'' then p else cwd @ ''/'' @ p);
          segs = normSegs [] (splitSlash abs)
      in if segs = [] then ''/'' else concat (map (\<lambda>seg. ''/'' @ seg) segs))"

definition nodeSys :: "string \<Rightarrow> string \<Rightarrow> fs sys" where
  "nodeSys home cwd =
     \<lparr> homedir = home,
       join = (\<lambda>a b. a @ ''/'' @ b),
       resolve = fs_resolve cwd,
       existsSync = fs_existsSync,
       readdirSync = fs_readdirSync,
       lstatSync = fs_lstatSync,
       readlinkSync = fs_readlinkSync,
       mkdirSync = fs_mkdirSync,
       symlinkSync = fs_symlinkSync,
       unlinkSync = fs_unlinkSync \<rparr>"

subsection \<open>Example filesystems\<close>

text \<open>
  A remote projects directory \<open>/r\<close> and a home \<open>/home/u\<close> whose projects directory holds
  a link to the right place, a link to another place and a real directory.
\<close>

definition exSys :: "fs sys" where
  "exSys = nodeSys ''/home/u'' ''/''"

definition exFs :: fs where
  "exFs =
     [(''/r'', Dir),
      (''/r/-home-user-proj-a'', Dir),
      (''/r/-home-user-proj-b'', Dir),
      (''/r/-home-user-work'', Dir),
      (''/r/-home-user-new'', Symlink ''/r/-home-user-work''),
      (''/r/-home-user-file'', File),
      (''/r/misc'', Dir),
      (''/old'', Dir),
      (''/home'', Dir),
      (''/home/u'', Dir),
      (''/home/u/.claude'', Dir),
      (''/home/u/.claude/projects'', Dir),
      (''/home/u/.claude/projects/-mnt-r-proj-a'', Symlink ''/r/-home-user-proj-a''),
      (''/home/u/.claude/projects/-mnt-r-proj-b'', Symlink ''/old''),
      (''/home/u/.claude/projects/-mnt-r-work'', Dir)]"

text \<open>What \<open>discoverMappings\<close> finds there for the mapping \<open>/home/user=/mnt/r\<close>.\<close>

definition exMappings :: "projectMapping list" where
  "exMappings =
     [\<lparr> sourceDirName = ''-home-user-proj-a'', sourceFullPath = ''/r/-home-user-proj-a'',
        localDirName = ''-mnt-r-proj-a'',
        localFullPath = ''/home/u/.claude/projects/-mnt-r-proj-a'',
        localState = SymlinkCorrect \<rparr>,
      \<lparr> sourceDirName = ''-home-user-proj-b'', sourceFullPath = ''/r/-home-user-proj-b'',
        localDirName = ''-mnt-r-proj-b'',
        localFullPath = ''/home/u/.claude/projects/-mnt-r-proj-b'',
        localState = SymlinkWrong \<rparr>,
      \<lparr> sourceDirName = ''-home-user-work'', sourceFullPath = ''/r/-home-user-work'',
        localDirName = ''-mnt-r-work'',
        localFullPath = ''/home/u/.claude/projects/-mnt-r-work'',
        localState = DirectoryExists \<rparr>,
      \<lparr> sourceDirName = ''-home-user-new'', sourceFullPath = ''/r/-home-user-new'',
        localDirName = ''-mnt-r-new'',
        localFullPath = ''/home/u/.claude/projects/-mnt-r-new'',
        localState = Missing \<rparr>]"

text \<open>The first filesystem after \<open>link\<close> has run on it.\<close>

definition exFsLinked :: fs where
  "exFsLinked =
     [(''/r'', Dir),
      (''/r/-home-user-proj-a'', Dir),
      (''/r/-home-user-proj-b'', Dir),
      (''/r/-home-user-work'', Dir),
      (''/r/-home-user-new'', Symlink ''/r/-home-user-work''),
      (''/r/-home-user-file'', File),
      (''/r/misc'', Dir),
      (''/old'', Dir),
      (''/home'', Dir),
      (''/home/u'', Dir),
      (''/home/u/.claude'', Dir),
      (''/home/u/.claude/projects'', Dir),
      (''/home/u/.claude/projects/-mnt-r-proj-a'', Symlink ''/r/-home-user-proj-a''),
      (''/home/u/.claude/projects/-mnt-r-work'', Dir),
      (''/home/u/.claude/projects/-mnt-r-proj-b'', Symlink ''/r/-home-user-proj-b''),
      (''/home/u/.claude/projects/-mnt-r-new'', Symlink ''/r/-home-user-new'')]"

text \<open>
  The scenario of section 8 of the specification once it is linked: the source \<open>/mnt/x\<close>
  holds two projects and the home has a link to each; then the same with the links removed.
\<close>

definition exFsBridged :: fs where
  "exFsBridged =
     [(''/mnt'', Dir),
      (''/mnt/x'', Dir),
      (''/mnt/x/-home-user-app'', Dir),
      (''/mnt/x/-home-user-lib'', Dir),
      (''/home'', Dir),
      (''/home/u'', Dir),
      (''/home/u/.claude'', Dir),
      (''/home/u/.claude/projects'', Dir),
      (''/home/u/.claude/projects/-mnt-x-home-user-app'', Symlink ''/mnt/x/-home-user-app''),
      (''/home/u/.claude/projects/-mnt-x-home-user-lib'', Symlink ''/mnt/x/-home-user-lib'')]"

definition exFsUnbridged :: fs where
  "exFsUnbridged =
     [(''/mnt'', Dir),
      (''/mnt/x'', Dir),
      (''/mnt/x/-home-user-app'', Dir),
      (''/mnt/x/-home-user-lib'', Dir),
      (''/home'', Dir),
      (''/home/u'', Dir),
      (''/home/u/.claude'', Dir),
      (''/home/u/.claude/projects'', Dir)]"

definition exBridgedMappings :: "projectMapping list" where
  "exBridgedMappings =
     [\<lparr> sourceDirName = ''-home-user-app'', sourceFullPath = ''/mnt/x/-home-user-app'',
        localDirName = ''-mnt-x-home-user-app'',
        localFullPath = ''/home/u/.claude/projects/-mnt-x-home-user-app'',
        localState = SymlinkCorrect \<rparr>,
      \<lparr> sourceDirName = ''-home-user-lib'', sourceFullPath = ''/mnt/x/-home-user-lib'',
        localDirName = ''-mnt-x-home-user-lib'',
        localFullPath = ''/home/u/.claude/projects/-mnt-x-home-user-lib'',
        localState = SymlinkCorrect \<rparr>]"

text \<open>
  A home whose projects directory is also taken as the source: it holds a project, a
  link to it and a link to that link; then the same after \<open>unlink\<close>.
\<close>

definition exFsSelf :: fs where
  "exFsSelf =
     [(''/home'', Dir),
      (''/home/u'', Dir),
      (''/home/u/.claude'', Dir),
      (''/home/u/.claude/projects'', Dir),
      (''/home/u/.claude/projects/-abbc'', Dir),
      (''/home/u/.claude/projects/-abc'', Symlink ''/home/u/.claude/projects/-abbc''),
      (''/home/u/.claude/projects/-ac'', Symlink ''/home/u/.claude/projects/-abc'')]"

definition exFsSelfUnlinked :: fs where
  "exFsSelfUnlinked =
     [(''/home'', Dir),
      (''/home/u'', Dir),
      (''/home/u/.claude'', Dir),
      (''/home/u/.claude/projects'', Dir),
      (''/home/u/.claude/projects/-abbc'', Dir)]"





text \<open>Two projects directories: one with two names that part inside a segment, one with a single name.\<close>

definition exFsSegments :: fs where
  "exFsSegments = [(''/p'', Dir), (''/p/-homeabc'', Dir), (''/p/-homexyz'', Dir)]"

definition exFsLone :: fs where
  "exFsLone = [(''/p'', Dir), (''/p/-tmp'', Dir)]"

text \<open>A home whose only local entry is a link to a place that is not there.\<close>

definition exFsDangling :: fs where
  "exFsDangling =
     [(''/r'', Dir),
      (''/r/-home-user-proj-a'', Dir),
      (''/home'', Dir),
      (''/home/u'', Dir),
      (''/home/u/.claude'', Dir),
      (''/home/u/.claude/projects'', Dir),
      (''/home/u/.claude/projects/-mnt-r-proj-a'', Symlink ''/gone'')]"

section \<open>Strings: the common prefix and the trimming\<close>

lemma commonLen_lcp:
  "commonLen p e i = i + length (longest_common_prefix (drop i p) (drop i e))"
proof (induction p e i rule: commonLen.induct)
  case (1 pfx entry i)
  show ?case
  proof (cases "i < length pfx \<and> i < length entry \<and> pfx ! i = entry ! i")
    case True
    then have lt: "i < length pfx" "i < length entry" by simp_all
    have dp: "drop i pfx = pfx ! i # drop (Suc i) pfx" and de: "drop i entry = entry ! i # drop (Suc i) entry"
      using lt by (simp_all add: Cons_nth_drop_Suc)
    from True have "commonLen pfx entry i = commonLen pfx entry (i + 1)"
      by (subst commonLen.simps) simp
    also have "\<dots> = i + 1 + length (longest_common_prefix (drop (i + 1) pfx) (drop (i + 1) entry))"
      using 1 True by simp
    finally show ?thesis using True dp de by simp
  next
    case False
    then have "commonLen pfx entry i = i"
      by (subst commonLen.simps) auto
    moreover have "longest_common_prefix (drop i pfx) (drop i entry) = []"
    proof (cases "i < length pfx \<and> i < length entry")
      case True
      with False have ne: "pfx ! i \<noteq> entry ! i" by simp
      from True have lt: "i < length pfx" "i < length entry" by simp_all
      have "drop i pfx = pfx ! i # drop (Suc i) pfx" "drop i entry = entry ! i # drop (Suc i) entry"
        using lt by (simp_all add: Cons_nth_drop_Suc)
      with ne show ?thesis by simp
    next
      case False
      then have "drop i pfx = [] \<or> drop i entry = []" by auto
      then show ?thesis by (cases "drop i pfx") auto
    qed
    ultimately show ?thesis by simp
  qed
qed

lemma take_commonLen: "take (commonLen p e 0) p = longest_common_prefix p e"
proof -
  have "prefix (longest_common_prefix p e) p" by (rule longest_common_prefix_prefix1)
  then obtain r where "p = longest_common_prefix p e @ r" by (auto simp: prefix_def)
  then have "take (length (longest_common_prefix p e)) p = longest_common_prefix p e"
    by (metis append_eq_conv_conj)
  then show ?thesis by (simp add: commonLen_lcp)
qed

lemma commonPrefixLoop_Cons:
  "commonPrefixLoop e0 (e # rest) = commonPrefixLoop (longest_common_prefix e0 e) rest"
  by (simp add: commonPrefixLoop_def take_commonLen)

lemma commonPrefixLoop_prefix_first: "prefix (commonPrefixLoop e0 rest) e0"
proof (induction rest arbitrary: e0)
  case Nil then show ?case by (simp add: commonPrefixLoop_def)
next
  case (Cons e rest)
  have "prefix (commonPrefixLoop (longest_common_prefix e0 e) rest) (longest_common_prefix e0 e)"
    by (rule Cons.IH)
  then have "prefix (commonPrefixLoop (longest_common_prefix e0 e) rest) e0"
    using longest_common_prefix_prefix1 [of e0 e] by (rule prefix_order.trans)
  then show ?case by (simp add: commonPrefixLoop_Cons)
qed

lemma commonPrefixLoop_lower: "e \<in> set (e0 # rest) \<Longrightarrow> prefix (commonPrefixLoop e0 rest) e"
proof (induction rest arbitrary: e0)
  case Nil then show ?case by (simp add: commonPrefixLoop_def)
next
  case (Cons x rest)
  let ?l = "longest_common_prefix e0 x"
  have first: "prefix (commonPrefixLoop ?l rest) ?l" by (rule commonPrefixLoop_prefix_first)
  from Cons.prems consider "e = e0" | "e = x" | "e \<in> set rest" by auto
  then show ?case
  proof cases
    case 1
    have "prefix (commonPrefixLoop ?l rest) e0"
      using first longest_common_prefix_prefix1 [of e0 x] by (rule prefix_order.trans)
    with 1 show ?thesis by (simp add: commonPrefixLoop_Cons)
  next
    case 2
    have "prefix (commonPrefixLoop ?l rest) x"
      using first longest_common_prefix_prefix2 [of e0 x] by (rule prefix_order.trans)
    with 2 show ?thesis by (simp add: commonPrefixLoop_Cons)
  next
    case 3
    then show ?thesis using Cons.IH [of ?l] by (simp add: commonPrefixLoop_Cons)
  qed
qed

lemma commonPrefixLoop_greatest:
  "\<forall>e \<in> set (e0 # rest). prefix q e \<Longrightarrow> prefix q (commonPrefixLoop e0 rest)"
proof (induction rest arbitrary: e0)
  case Nil then show ?case by (simp add: commonPrefixLoop_def)
next
  case (Cons x rest)
  have "prefix q (longest_common_prefix e0 x)"
    using Cons.prems by (simp add: longest_common_prefix_max_prefix)
  then show ?case using Cons.prems Cons.IH [of "longest_common_prefix e0 x"]
    by (simp add: commonPrefixLoop_Cons)
qed


lemma lastIndexFrom_append: "n \<le> length xs \<Longrightarrow> lastIndexFrom (xs @ ys) c n = lastIndexFrom xs c n"
  by (induction n) (simp_all add: nth_append)

lemma lastIndexOf_snoc:
  "lastIndexOf (xs @ [x]) c = (if x = c then int (length xs) else lastIndexOf xs c)"
  by (simp add: lastIndexOf_def lastIndexFrom_append)

lemma specTrim_snoc: "specTrim (xs @ [x]) = (if x = CHR ''-'' then xs else specTrim xs)"
  by (simp add: specTrim_def)

lemma lastIndexOf_Nil: "lastIndexOf [] c = - 1"
  by (simp add: lastIndexOf_def)

lemma specTrim_Nil: "specTrim [] = []"
  by (simp add: specTrim_def)

lemma lastIndexOf_absent: "c \<notin> set xs \<Longrightarrow> lastIndexOf xs c = - 1"
  by (induction xs rule: rev_induct) (auto simp: lastIndexOf_snoc lastIndexOf_Nil)

lemma specTrim_absent: "CHR ''-'' \<notin> set xs \<Longrightarrow> specTrim xs = []"
  by (induction xs rule: rev_induct) (auto simp: specTrim_snoc specTrim_Nil)

lemma lastIndexOf_specTrim:
  "CHR ''-'' \<in> set xs \<Longrightarrow>
     lastIndexOf xs CHR ''-'' = int (length (specTrim xs)) \<and> take (length (specTrim xs)) xs = specTrim xs"
proof (induction xs rule: rev_induct)
  case Nil then show ?case by simp
next
  case (snoc x xs)
  show ?case
  proof (cases "x = CHR ''-''")
    case True then show ?thesis by (simp add: lastIndexOf_snoc specTrim_snoc)
  next
    case False
    with snoc.prems have "CHR ''-'' \<in> set xs" by simp
    from snoc.IH [OF this] have a: "lastIndexOf xs CHR ''-'' = int (length (specTrim xs))"
      and b: "take (length (specTrim xs)) xs = specTrim xs" by simp_all
    have "length (specTrim xs) \<le> length xs" by (metis b length_take min.cobounded2 min.commute)
    with False a b show ?thesis by (simp add: lastIndexOf_snoc specTrim_snoc)
  qed
qed

lemma trimToHyphen_spec: "trimToHyphen c = (if specTrim c = [] then c else specTrim c)"
proof (cases "CHR ''-'' \<in> set c")
  case True
  from lastIndexOf_specTrim [OF True] show ?thesis by (simp add: trimToHyphen_def Let_def)
next
  case False
  then show ?thesis by (simp add: trimToHyphen_def lastIndexOf_absent specTrim_absent)
qed


lemma inferPrefix_spec:
  "inferPrefix (e0 # rest) =
     (let c = commonPrefixLoop e0 rest; t = (if specTrim c = [] then c else specTrim c)
      in if length t < 3 then None else Some t)"
  by (simp add: inferPrefix_def trimToHyphen_spec Let_def)

section \<open>Prefix inference\<close>

lemma detectRemotePrefix_on_names:
  assumes rd: "readdirSync sys s projectsPath = Inr ents"
    and names: "names = filter (\<lambda>e. startsWith e ''-'') (map ent_name ents)"
    and ne: "names \<noteq> []"
  shows "\<exists>c. (\<forall>n \<in> set names. prefix c n)
           \<and> (\<forall>q. (\<forall>n \<in> set names. prefix q n) \<longrightarrow> prefix q c)
           \<and> detectRemotePrefix sys s projectsPath =
               Inr (let t = (if specTrim c = [] then c else specTrim c)
                    in if length t < 3 then None else Some t)"
proof -
  from ne obtain e0 rest where split: "names = e0 # rest" by (cases names) simp_all
  let ?c = "commonPrefixLoop e0 rest"
  have "\<forall>n \<in> set names. prefix ?c n"
    unfolding split using commonPrefixLoop_lower by blast
  moreover have "\<forall>q. (\<forall>n \<in> set names. prefix q n) \<longrightarrow> prefix q ?c"
    unfolding split using commonPrefixLoop_greatest by blast
  moreover have "detectRemotePrefix sys s projectsPath =
                 Inr (let t = (if specTrim ?c = [] then ?c else specTrim ?c)
                      in if length t < 3 then None else Some t)"
  proof -
    from names split have f: "filter (\<lambda>e. startsWith e ''-'') (map ent_name ents) = e0 # rest"
      by simp
    from rd have "detectRemotePrefix sys s projectsPath = Inr (inferPrefix (e0 # rest))"
      by (simp add: detectRemotePrefix_def f)
    then show ?thesis by (simp only: inferPrefix_spec Let_def)
  qed
  ultimately show ?thesis by blast
qed

lemma inferPrefix_length: "inferPrefix names = Some r \<Longrightarrow> 3 \<le> length r"
  by (auto simp: inferPrefix_def Let_def split: list.splits if_splits)

text \<open>
  Claim C5, at the input where the program departs from it. The projects directory holds
  the names \<open>-homeabc\<close> and \<open>-homexyz\<close>. Their longest common prefix is \<open>-home\<close>, whose only
  reserved character is the first one: trimmed as the specification says it leaves
  nothing, and no prefix would be reported. The program skips the trimming and returns
  \<open>-home\<close>, which stops inside the segments \<open>homeabc\<close> and \<open>homexyz\<close>.
\<close>

theorem detectRemotePrefix_stops_inside_segment:
  "detectRemotePrefix exSys exFsSegments ''/p'' = Inr (Some ''-home'')
   \<and> inferPrefix [''-homeabc'', ''-homexyz''] = Some ''-home''
   \<and> commonPrefixLoop ''-homeabc'' [''-homexyz''] = ''-home''
   \<and> specTrim ''-home'' = []
   \<and> specInferPrefix [''-homeabc'', ''-homexyz''] = None
   \<and> endsMidSegment ''-home'' ''-homeabc''
   \<and> endsMidSegment ''-home'' ''-homexyz''"
  by code_simp

text \<open>
  Claim C6, as amended. When the projects directory holds no name beginning with the
  reserved character, \<open>detectRemotePrefix\<close> returns no prefix (a result, not an error).
  Otherwise let \<open>c\<close> be the longest common prefix of those names. If trimming \<open>c\<close> at its
  last reserved character leaves something, that is returned when it has at least three
  characters and no prefix when it has fewer. If the trimming leaves nothing and \<open>c\<close> stops
  inside a segment of no name, \<open>c\<close> itself is returned when it has at least three
  characters and no prefix when it has fewer. A prefix that is returned always has at
  least three characters. On \<open>-home-a\<close> and \<open>-work-b\<close> no prefix is returned.
\<close>

theorem detectRemotePrefix_no_degenerate_guess:
  "(readdirSync sys s projectsPath = Inr ents
      \<and> filter (\<lambda>e. startsWith e ''-'') (map ent_name ents) = []
      \<longrightarrow> detectRemotePrefix sys s projectsPath = Inr None)
   \<and> (readdirSync sys s projectsPath = Inr ents
      \<and> names = filter (\<lambda>e. startsWith e ''-'') (map ent_name ents) \<and> names \<noteq> []
      \<longrightarrow> (\<exists>c. (\<forall>n \<in> set names. prefix c n)
             \<and> (\<forall>q. (\<forall>n \<in> set names. prefix q n) \<longrightarrow> prefix q c)
             \<and> (specTrim c \<noteq> [] \<longrightarrow>
                  detectRemotePrefix sys s projectsPath =
                    Inr (if length (specTrim c) < 3 then None else Some (specTrim c)))
             \<and> (specTrim c = [] \<and> (\<forall>n \<in> set names. \<not> endsMidSegment c n) \<longrightarrow>
                  detectRemotePrefix sys s projectsPath =
                    Inr (if length c < 3 then None else Some c))))
   \<and> (detectRemotePrefix sys s projectsPath = Inr (Some r) \<longrightarrow> 3 \<le> length r)
   \<and> inferPrefix [''-home-a'', ''-work-b''] = None"
proof (intro conjI impI)
  assume "readdirSync sys s projectsPath = Inr ents
      \<and> filter (\<lambda>e. startsWith e ''-'') (map ent_name ents) = []"
  then show "detectRemotePrefix sys s projectsPath = Inr None"
    by (simp add: detectRemotePrefix_def inferPrefix_def)
next
  assume a: "readdirSync sys s projectsPath = Inr ents
      \<and> names = filter (\<lambda>e. startsWith e ''-'') (map ent_name ents) \<and> names \<noteq> []"
  then have rd: "readdirSync sys s projectsPath = Inr ents"
    and nm: "names = filter (\<lambda>e. startsWith e ''-'') (map ent_name ents)"
    and ne: "names \<noteq> []" by blast+
  from detectRemotePrefix_on_names [OF rd nm ne] obtain c where
    lower: "\<forall>n \<in> set names. prefix c n"
    and greatest: "\<forall>q. (\<forall>n \<in> set names. prefix q n) \<longrightarrow> prefix q c"
    and res: "detectRemotePrefix sys s projectsPath =
               Inr (let t = (if specTrim c = [] then c else specTrim c)
                    in if length t < 3 then None else Some t)" by blast
  from res have "specTrim c \<noteq> [] \<longrightarrow>
                  detectRemotePrefix sys s projectsPath =
                    Inr (if length (specTrim c) < 3 then None else Some (specTrim c))"
    by (simp add: Let_def)
  moreover from res have "specTrim c = [] \<and> (\<forall>n \<in> set names. \<not> endsMidSegment c n) \<longrightarrow>
                  detectRemotePrefix sys s projectsPath =
                    Inr (if length c < 3 then None else Some c)"
    by (simp add: Let_def)
  ultimately show "\<exists>c. (\<forall>n \<in> set names. prefix c n)
             \<and> (\<forall>q. (\<forall>n \<in> set names. prefix q n) \<longrightarrow> prefix q c)
             \<and> (specTrim c \<noteq> [] \<longrightarrow>
                  detectRemotePrefix sys s projectsPath =
                    Inr (if length (specTrim c) < 3 then None else Some (specTrim c)))
             \<and> (specTrim c = [] \<and> (\<forall>n \<in> set names. \<not> endsMidSegment c n) \<longrightarrow>
                  detectRemotePrefix sys s projectsPath =
                    Inr (if length c < 3 then None else Some c))"
    using lower greatest by blast
next
  assume "detectRemotePrefix sys s projectsPath = Inr (Some r)"
  then show "3 \<le> length r"
    by (auto simp: detectRemotePrefix_def split: sum.splits dest: inferPrefix_length)
next
  show "inferPrefix [''-home-a'', ''-work-b''] = None" by code_simp
qed

theorem detectRemotePrefix_no_degenerate_guess_witness:
  "readdirSync exSys exFs ''/home/u'' = Inr [\<lparr> ent_name = ''.claude'', ent_type = Directory \<rparr>]
   \<and> detectRemotePrefix exSys exFs ''/home/u'' = Inr None
   \<and> readdirSync exSys exFsLone ''/p'' = Inr [\<lparr> ent_name = ''-tmp'', ent_type = Directory \<rparr>]
   \<and> specTrim ''-tmp'' = []
   \<and> \<not> endsMidSegment ''-tmp'' ''-tmp''
   \<and> detectRemotePrefix exSys exFsLone ''/p'' = Inr (Some ''-tmp'')
   \<and> 3 \<le> length ''-tmp''"
proof -
  let ?ents0 = "[\<lparr> ent_name = ''.claude'', ent_type = Directory \<rparr>]"
  let ?ents1 = "[\<lparr> ent_name = ''-tmp'', ent_type = Directory \<rparr>]"
  have h1: "readdirSync exSys exFs ''/home/u'' = Inr ?ents0" by code_simp
  have h2: "filter (\<lambda>e. startsWith e ''-'') (map ent_name ?ents0) = []" by code_simp
  from detectRemotePrefix_no_degenerate_guess [of exSys exFs "''/home/u''" ?ents0] h1 h2
  have none: "detectRemotePrefix exSys exFs ''/home/u'' = Inr None" by blast
  have h3: "readdirSync exSys exFsLone ''/p'' = Inr ?ents1" by code_simp
  have h4: "[''-tmp''] = filter (\<lambda>e. startsWith e ''-'') (map ent_name ?ents1)" by code_simp
  have h5: "[''-tmp''] \<noteq> []" by simp
  have h6: "specTrim ''-tmp'' = []" by code_simp
  have h7: "\<not> endsMidSegment ''-tmp'' ''-tmp''" by code_simp
  from detectRemotePrefix_no_degenerate_guess
      [of exSys exFsLone "''/p''" ?ents1 "[''-tmp'']"] h3 h4 h5
  obtain c where lower: "\<forall>n \<in> set [''-tmp'']. prefix c n"
    and greatest: "\<forall>q. (\<forall>n \<in> set [''-tmp'']. prefix q n) \<longrightarrow> prefix q c"
    and whole: "specTrim c = [] \<and> (\<forall>n \<in> set [''-tmp'']. \<not> endsMidSegment c n) \<longrightarrow>
                  detectRemotePrefix exSys exFsLone ''/p'' =
                    Inr (if length c < 3 then None else Some c)"
    by blast
  from lower have "prefix c ''-tmp''" by simp
  moreover from greatest have "prefix ''-tmp'' c" by simp
  ultimately have c: "c = ''-tmp''" by (rule prefix_order.antisym)
  from whole h6 h7 have some: "detectRemotePrefix exSys exFsLone ''/p'' = Inr (Some ''-tmp'')"
    unfolding c by simp
  from detectRemotePrefix_no_degenerate_guess [of exSys exFsLone "''/p''" _ _ "''-tmp''"] some
  have "3 \<le> length ''-tmp''" by blast
  with h1 none h3 h6 h7 some show ?thesis by blast
qed

text \<open>
  Claim C6 as the specification states it fails on the single name \<open>-tmp\<close>: the candidate
  is the whole name, trimming it at its last reserved character leaves nothing, so no
  prefix should be reported, and the program returns \<open>-tmp\<close>.
\<close>

theorem detectRemotePrefix_lone_segment_counterexample:
  "detectRemotePrefix exSys exFsLone ''/p'' = Inr (Some ''-tmp'')
   \<and> commonPrefixLoop ''-tmp'' [] = ''-tmp''
   \<and> specTrim ''-tmp'' = []
   \<and> specInferPrefix [''-tmp''] = None"
  by code_simp

section \<open>Discovery\<close>

lemma encodePrefix_length: "length (encodePrefix p) = length p"
  by (simp add: encodePrefix_def)

lemma encodePrefix_nth:
  "i < length p \<Longrightarrow> encodePrefix p ! i = (if p ! i = CHR ''/'' then CHR ''-'' else p ! i)"
  by (simp add: encodePrefix_def)

lemma encodePrefix_no_separator: "CHR ''/'' \<notin> set (encodePrefix p)"
  by (auto simp: encodePrefix_def)

lemma discoverEntry_names:
  "map_option (\<lambda>m. (sourceDirName m, localDirName m)) (discoverEntry sys s sp er el e) =
     (if (isDirectory (ent_type e) \<or> isSymbolicLink (ent_type e)) \<and> prefix er (ent_name e)
      then Some (ent_name e, el @ drop (length er) (ent_name e)) else None)"
  by (simp add: discoverEntry_def startsWith_def Let_def)

lemma map_map_filter: "map f (List.map_filter g xs) = List.map_filter (\<lambda>x. map_option f (g x)) xs"
  by (induction xs) (auto simp: List.map_filter_simps split: option.splits)

lemma map_filter_if: "List.map_filter (\<lambda>x. if P x then Some (f x) else None) xs = map f (filter P xs)"
  by (induction xs) (auto simp: List.map_filter_simps)

lemma discover_names:
  "map (\<lambda>m. (sourceDirName m, localDirName m)) (List.map_filter (discoverEntry sys s sp er el) entries) =
      map (\<lambda>e. (ent_name e, el @ drop (length er) (ent_name e)))
        (filter (\<lambda>e. (isDirectory (ent_type e) \<or> isSymbolicLink (ent_type e)) \<and> prefix er (ent_name e)) entries)"
  by (simp add: map_map_filter discoverEntry_names map_filter_if)

text \<open>
  Claim C7. When the source directory exists and can be read, \<open>discoverMappings\<close> returns
  one mapping for each entry that is a directory or a symbolic link and whose name starts
  with the encoded remote prefix, in the order of the entries and for no other entry; its
  local name is the encoded local prefix followed by what follows the encoded remote
  prefix in the entry's name. Encoding keeps the length and replaces each separator by
  the reserved character, leaving every other character as it is.
\<close>

theorem discoverMappings_rewrites_prefix:
  assumes "existsSync sys s sourcePath" and "readdirSync sys s sourcePath = Inr entries"
  shows "\<exists>ms. discoverMappings sys s sourcePath remotePrefix localPrefix = Inr ms
     \<and> map (\<lambda>m. (sourceDirName m, localDirName m)) ms =
         map (\<lambda>e. (ent_name e,
                   encodePrefix localPrefix @ drop (length (encodePrefix remotePrefix)) (ent_name e)))
           (filter (\<lambda>e. (isDirectory (ent_type e) \<or> isSymbolicLink (ent_type e))
                        \<and> startsWith (ent_name e) (encodePrefix remotePrefix)) entries)
     \<and> (\<forall>e \<in> set entries. \<forall>suffix.
           (isDirectory (ent_type e) \<or> isSymbolicLink (ent_type e))
           \<and> ent_name e = encodePrefix remotePrefix @ suffix
           \<longrightarrow> (\<exists>m \<in> set ms. sourceDirName m = ent_name e
                              \<and> localDirName m = encodePrefix localPrefix @ suffix))
     \<and> length (encodePrefix remotePrefix) = length remotePrefix
     \<and> (\<forall>i < length remotePrefix. encodePrefix remotePrefix ! i =
           (if remotePrefix ! i = CHR ''/'' then CHR ''-'' else remotePrefix ! i))"
proof -
  let ?er = "encodePrefix remotePrefix" and ?el = "encodePrefix localPrefix"
  let ?ms = "List.map_filter (discoverEntry sys s sourcePath ?er ?el) entries"
  let ?P = "\<lambda>e. (isDirectory (ent_type e) \<or> isSymbolicLink (ent_type e)) \<and> prefix ?er (ent_name e)"
  have d: "discoverMappings sys s sourcePath remotePrefix localPrefix = Inr ?ms"
    using assms by (simp add: discoverMappings_def)
  have names: "map (\<lambda>m. (sourceDirName m, localDirName m)) ?ms =
      map (\<lambda>e. (ent_name e, ?el @ drop (length ?er) (ent_name e))) (filter ?P entries)"
    by (rule discover_names)
  have each: "\<exists>m \<in> set ?ms. sourceDirName m = ent_name e \<and> localDirName m = ?el @ suffix"
    if "e \<in> set entries" "isDirectory (ent_type e) \<or> isSymbolicLink (ent_type e)"
       "ent_name e = ?er @ suffix" for e suffix
  proof -
    from that have "e \<in> set (filter ?P entries)" by simp
    then have "(ent_name e, ?el @ drop (length ?er) (ent_name e))
        \<in> set (map (\<lambda>m. (sourceDirName m, localDirName m)) ?ms)"
      unfolding names set_map by (rule imageI)
    then obtain m where "m \<in> set ?ms" "sourceDirName m = ent_name e"
      "localDirName m = ?el @ drop (length ?er) (ent_name e)" by auto
    with that(3) show ?thesis by auto
  qed
  show ?thesis
    apply (rule exI [of _ ?ms])
    using d names each by (simp add: startsWith_def encodePrefix_length encodePrefix_nth)
qed


theorem discoverMappings_rewrites_prefix_witness:
  "existsSync exSys exFs ''/r''
   \<and> readdirSync exSys exFs ''/r'' =
       Inr [\<lparr> ent_name = ''-home-user-proj-a'', ent_type = Directory \<rparr>,
            \<lparr> ent_name = ''-home-user-proj-b'', ent_type = Directory \<rparr>,
            \<lparr> ent_name = ''-home-user-work'', ent_type = Directory \<rparr>,
            \<lparr> ent_name = ''-home-user-new'', ent_type = SymbolicLink \<rparr>,
            \<lparr> ent_name = ''-home-user-file'', ent_type = RegularFile \<rparr>,
            \<lparr> ent_name = ''misc'', ent_type = Directory \<rparr>]
   \<and> discoverMappings exSys exFs ''/r'' ''/home/user'' ''/mnt/r'' = Inr exMappings
   \<and> map (\<lambda>m. (sourceDirName m, localDirName m)) exMappings =
       [(''-home-user-proj-a'', ''-mnt-r-proj-a''), (''-home-user-proj-b'', ''-mnt-r-proj-b''),
        (''-home-user-work'', ''-mnt-r-work''), (''-home-user-new'', ''-mnt-r-new'')]"
proof -
  let ?entries = "[\<lparr> ent_name = ''-home-user-proj-a'', ent_type = Directory \<rparr>,
            \<lparr> ent_name = ''-home-user-proj-b'', ent_type = Directory \<rparr>,
            \<lparr> ent_name = ''-home-user-work'', ent_type = Directory \<rparr>,
            \<lparr> ent_name = ''-home-user-new'', ent_type = SymbolicLink \<rparr>,
            \<lparr> ent_name = ''-home-user-file'', ent_type = RegularFile \<rparr>,
            \<lparr> ent_name = ''misc'', ent_type = Directory \<rparr>]"
  have h1: "existsSync exSys exFs ''/r''" by code_simp
  have h2: "readdirSync exSys exFs ''/r'' = Inr ?entries" by code_simp
  have run: "discoverMappings exSys exFs ''/r'' ''/home/user'' ''/mnt/r'' = Inr exMappings"
    by code_simp
  from discoverMappings_rewrites_prefix [OF h1 h2, of "''/home/user''" "''/mnt/r''"]
  obtain ms where a: "discoverMappings exSys exFs ''/r'' ''/home/user'' ''/mnt/r'' = Inr ms"
    and b: "map (\<lambda>m. (sourceDirName m, localDirName m)) ms =
         map (\<lambda>e. (ent_name e,
                   encodePrefix ''/mnt/r'' @ drop (length (encodePrefix ''/home/user'')) (ent_name e)))
           (filter (\<lambda>e. (isDirectory (ent_type e) \<or> isSymbolicLink (ent_type e))
                        \<and> startsWith (ent_name e) (encodePrefix ''/home/user'')) ?entries)"
    by blast
  from a run have "ms = exMappings" by simp
  with b have "map (\<lambda>m. (sourceDirName m, localDirName m)) exMappings =
       [(''-home-user-proj-a'', ''-mnt-r-proj-a''), (''-home-user-proj-b'', ''-mnt-r-proj-b''),
        (''-home-user-work'', ''-mnt-r-work''), (''-home-user-new'', ''-mnt-r-new'')]"
    by (simp add: encodePrefix_def startsWith_def)
  with h1 h2 run show ?thesis by blast
qed

text \<open>
  Claim C9. When \<open>existsSync\<close> says the source path is not there, \<open>discoverMappings\<close> ends the
  process with \<open>process.exit(1)\<close> and returns no mapping; so do \<open>scan\<close>, \<open>link\<close> and
  \<open>unlink\<close>, which leave the filesystem as it was.
\<close>

theorem missing_source_is_fatal:
  "\<not> existsSync sys s sourcePath \<Longrightarrow>
     discoverMappings sys s sourcePath remotePrefix localPrefix = Inl (Exit 1)
     \<and> cmdScan sys s sourcePath remotePrefix localPrefix = Inl (Exit 1)
     \<and> cmdLink sys s sourcePath remotePrefix localPrefix = (s, Inl (Exit 1))
     \<and> cmdUnlink sys s sourcePath remotePrefix localPrefix = (s, Inl (Exit 1))
     \<and> Exit 1 \<noteq> Exit 0"
  by (simp add: discoverMappings_def cmdScan_def cmdLink_def cmdUnlink_def)

theorem missing_source_is_fatal_witness:
  "\<not> existsSync exSys exFs ''/nowhere''
   \<and> discoverMappings exSys exFs ''/nowhere'' ''/home/user'' ''/mnt/r'' = Inl (Exit 1)
   \<and> cmdLink exSys exFs ''/nowhere'' ''/home/user'' ''/mnt/r'' = (exFs, Inl (Exit 1))"
proof -
  have h: "\<not> existsSync exSys exFs ''/nowhere''" by code_simp
  from missing_source_is_fatal [OF h, of "''/home/user''" "''/mnt/r''"] h show ?thesis by simp
qed

text \<open>
  Claim C4, at the input where the program departs from it. The local path is a symbolic
  link whose target differs from the source path and does not exist: \<open>existsSync\<close> follows
  the link and answers false, so the entry is classified as missing, not as a link to the
  wrong place, and \<open>link\<close> then stops on \<open>symlinkSync\<close> with EEXIST.
\<close>

theorem dangling_link_is_classified_missing:
  "lstatSync exSys exFsDangling ''/home/u/.claude/projects/-mnt-r-proj-a'' = Inr SymbolicLink
   \<and> readlinkSync exSys exFsDangling ''/home/u/.claude/projects/-mnt-r-proj-a'' = Inr ''/gone''
   \<and> resolve exSys ''/gone'' \<noteq> resolve exSys ''/r/-home-user-proj-a''
   \<and> classify exSys exFsDangling ''/home/u/.claude/projects/-mnt-r-proj-a'' ''/r/-home-user-proj-a''
       = Missing
   \<and> map localState (projr (discoverMappings exSys exFsDangling ''/r'' ''/home/user'' ''/mnt/r''))
       = [Missing]
   \<and> cmdLink exSys exFsDangling ''/r'' ''/home/user'' ''/mnt/r''
       = (exFsDangling, Inl (Uncaught EEXIST))"
  by code_simp

section \<open>Linking\<close>

lemma linkLoop_count:
  "linkLoop sys s r ms = (s', Inr r') \<Longrightarrow>
     created r' + updated r' + skipped r' = created r + updated r + skipped r + length ms"
proof (induction ms arbitrary: s r)
  case Nil then show ?case by simp
next
  case (Cons m ms)
  show ?case
  proof (cases "localState m")
    case Missing
    with Cons.prems obtain s1 where "symlinkSync sys s (sourceFullPath m) (localFullPath m) = Inr s1"
      and "linkLoop sys s1 (r\<lparr>created := created r + 1\<rparr>) ms = (s', Inr r')"
      by (auto split: sum.splits)
    from Cons.IH [OF this(2)] show ?thesis by simp
  next
    case SymlinkCorrect
    with Cons.prems have "linkLoop sys s (r\<lparr>skipped := skipped r + 1\<rparr>) ms = (s', Inr r')" by simp
    from Cons.IH [OF this] show ?thesis by simp
  next
    case SymlinkWrong
    with Cons.prems obtain s2 where
      "linkLoop sys s2 (r\<lparr>updated := updated r + 1\<rparr>) ms = (s', Inr r')"
      by (auto split: sum.splits)
    from Cons.IH [OF this] show ?thesis by simp
  next
    case DirectoryExists
    with Cons.prems have "linkLoop sys s (r\<lparr>skipped := skipped r + 1\<rparr>) ms = (s', Inr r')" by simp
    from Cons.IH [OF this] show ?thesis by simp
  qed
qed

text \<open>
  Claim C10. Whenever \<open>doLink\<close> returns, its three counters add up to the number of
  mappings it was given.
\<close>

theorem doLink_counts_every_mapping:
  "doLink sys s mappings = (s', Inr r) \<Longrightarrow> created r + updated r + skipped r = length mappings"
  by (auto simp: doLink_def split: sum.splits dest: linkLoop_count)

theorem doLink_counts_every_mapping_witness:
  "snd (doLink exSys exFs exMappings) = Inr \<lparr> created = 1, updated = 1, skipped = 2 \<rparr>
   \<and> (1::nat) + 1 + 2 = length exMappings"
proof -
  let ?r = "\<lparr> created = 1, updated = 1, skipped = 2 \<rparr>"
  have run: "snd (doLink exSys exFs exMappings) = Inr ?r" by code_simp
  then have "doLink exSys exFs exMappings = (fst (doLink exSys exFs exMappings), Inr ?r)"
    by (simp add: prod_eq_iff)
  from doLink_counts_every_mapping [OF this] run show ?thesis by simp
qed

section \<open>The filesystem model: what each call does to the entries\<close>

lemma nodeSys_fields [simp]:
  "homedir (nodeSys h c) = h"
  "join (nodeSys h c) a b = a @ ''/'' @ b"
  "resolve (nodeSys h c) = fs_resolve c"
  "existsSync (nodeSys h c) = fs_existsSync"
  "readdirSync (nodeSys h c) = fs_readdirSync"
  "lstatSync (nodeSys h c) = fs_lstatSync"
  "readlinkSync (nodeSys h c) = fs_readlinkSync"
  "mkdirSync (nodeSys h c) = fs_mkdirSync"
  "symlinkSync (nodeSys h c) = fs_symlinkSync"
  "unlinkSync (nodeSys h c) = fs_unlinkSync"
  by (simp_all add: nodeSys_def)

lemma map_of_snoc:
  "map_of (fs @ [(p, v)]) q = (case map_of fs q of Some n \<Rightarrow> Some n | None \<Rightarrow> if q = p then Some v else None)"
  by (induction fs) (auto split: option.splits)

lemma map_of_remove: "map_of (filter (\<lambda>e. fst e \<noteq> p) fs) q = (if q = p then None else map_of fs q)"
  by (induction fs) auto

lemma symlinkSync_ok:
  "fs_symlinkSync fs t p = Inr fs' \<Longrightarrow>
     fs' = fs @ [(p, Symlink t)] \<and> map_of fs p = None \<and> isDirAt fs (dirname p)"
  by (auto simp: fs_symlinkSync_def split: if_splits)

lemma symlinkSync_nodes:
  "fs_symlinkSync fs t p = Inr fs' \<Longrightarrow> map_of fs' = (map_of fs)(p \<mapsto> Symlink t)"
  by (auto simp: fun_eq_iff map_of_snoc simp del: map_of_append dest!: symlinkSync_ok split: option.splits)

lemma unlinkSync_ok:
  "fs_unlinkSync fs p = Inr fs' \<Longrightarrow>
     fs' = filter (\<lambda>e. fst e \<noteq> p) fs \<and> (\<exists>n. map_of fs p = Some n \<and> n \<noteq> Dir)"
  by (auto simp: fs_unlinkSync_def split: option.splits node.splits)

lemma unlinkSync_nodes:
  "fs_unlinkSync fs p = Inr fs' \<Longrightarrow> map_of fs' = (map_of fs)(p := None)"
  by (auto simp: fun_eq_iff map_of_remove dest!: unlinkSync_ok)

lemma unlinkSync_link:
  "map_of fs p = Some (Symlink t) \<Longrightarrow> fs_unlinkSync fs p = Inr (filter (\<lambda>e. fst e \<noteq> p) fs)"
  by (simp add: fs_unlinkSync_def)

lemma mkdirStep_error: "foldl mkdirStep (Inl e) as = Inl e"
  by (induction as) simp_all

lemma mkdirStep_ok:
  "mkdirStep (Inr fs) a = Inr fs' \<Longrightarrow>
     (map_of fs a = None \<and> fs' = fs @ [(a, Dir)]) \<or> (map_of fs a = Some Dir \<and> fs' = fs)"
  by (auto split: option.splits node.splits)

lemma mkdir_fold_nodes:
  "foldl mkdirStep (Inr fs) as = Inr fs' \<Longrightarrow>
     map_of fs' q = (case map_of fs q of Some n \<Rightarrow> Some n | None \<Rightarrow> if q \<in> set as then Some Dir else None)"
proof (induction as arbitrary: fs)
  case Nil then show ?case by (simp split: option.splits)
next
  case (Cons a as)
  from Cons.prems obtain fs1 where s: "mkdirStep (Inr fs) a = Inr fs1"
    and r: "foldl mkdirStep (Inr fs1) as = Inr fs'"
    by (cases "mkdirStep (Inr fs) a") (simp_all add: mkdirStep_error)
  from Cons.IH [OF r] have ih: "map_of fs' q =
      (case map_of fs1 q of Some n \<Rightarrow> Some n | None \<Rightarrow> if q \<in> set as then Some Dir else None)" .
  from mkdirStep_ok [OF s] show ?case
    by (auto simp: ih map_of_snoc simp del: map_of_append split: option.splits if_splits)
qed

lemma mkdirSync_nodes:
  "fs_mkdirSync fs p = Inr fs' \<Longrightarrow>
     map_of fs' q = (case map_of fs q of Some n \<Rightarrow> Some n | None \<Rightarrow> if q \<in> set (ancestors p) then Some Dir else None)"
  unfolding fs_mkdirSync_def by (rule mkdir_fold_nodes)

lemma mkdir_fold_dirs:
  "foldl mkdirStep (Inr fs) as = Inr fs' \<Longrightarrow> a \<in> set as \<Longrightarrow> map_of fs' a = Some Dir"
proof (induction as arbitrary: fs)
  case Nil then show ?case by simp
next
  case (Cons x as)
  from Cons.prems obtain fs1 where s: "mkdirStep (Inr fs) x = Inr fs1"
    and r: "foldl mkdirStep (Inr fs1) as = Inr fs'"
    by (cases "mkdirStep (Inr fs) x") (simp_all add: mkdirStep_error)
  show ?case
  proof (cases "a \<in> set as")
    case True with Cons.IH [OF r] show ?thesis by simp
  next
    case False
    with Cons.prems have "a = x" by simp
    with mkdirStep_ok [OF s] have "map_of fs1 a = Some Dir"
      by (auto simp: map_of_snoc simp del: map_of_append)
    with mkdir_fold_nodes [OF r, of a] show ?thesis by simp
  qed
qed

lemma mkdirSync_dir: "fs_mkdirSync fs p = Inr fs' \<Longrightarrow> map_of fs' p = Some Dir"
proof -
  assume a: "fs_mkdirSync fs p = Inr fs'"
  have "p \<in> set (ancestors p)" by (simp add: ancestors_def)
  with a show ?thesis unfolding fs_mkdirSync_def by (rule mkdir_fold_dirs)
qed

section \<open>The linking loop on the filesystem model\<close>

lemma linkLoop_invariant:
  assumes run: "linkLoop (nodeSys h c) s r ms = (s', out)"
    and init: "P s"
    and add: "\<And>fs m. P fs \<Longrightarrow> m \<in> set ms \<Longrightarrow> linkable m \<Longrightarrow> map_of fs (localFullPath m) = None \<Longrightarrow>
                 isDirAt fs (dirname (localFullPath m)) \<Longrightarrow>
                 P (fs @ [(localFullPath m, Symlink (sourceFullPath m))])"
    and del: "\<And>fs m n. P fs \<Longrightarrow> m \<in> set ms \<Longrightarrow> localState m = SymlinkWrong \<Longrightarrow>
                 map_of fs (localFullPath m) = Some n \<Longrightarrow> n \<noteq> Dir \<Longrightarrow>
                 P (filter (\<lambda>e. fst e \<noteq> localFullPath m) fs)"
  shows "P s'"
  using run init add del
proof (induction ms arbitrary: s r)
  case Nil then show ?case by simp
next
  case (Cons m ms)
  let ?S = "nodeSys h c"
  have add': "\<And>fs x. P fs \<Longrightarrow> x \<in> set ms \<Longrightarrow> linkable x \<Longrightarrow> map_of fs (localFullPath x) = None \<Longrightarrow>
                 isDirAt fs (dirname (localFullPath x)) \<Longrightarrow>
                 P (fs @ [(localFullPath x, Symlink (sourceFullPath x))])"
    using Cons.prems(3) by simp
  have del': "\<And>fs x n. P fs \<Longrightarrow> x \<in> set ms \<Longrightarrow> localState x = SymlinkWrong \<Longrightarrow>
                 map_of fs (localFullPath x) = Some n \<Longrightarrow> n \<noteq> Dir \<Longrightarrow>
                 P (filter (\<lambda>e. fst e \<noteq> localFullPath x) fs)"
    using Cons.prems(4) by simp
  show ?case
  proof (cases "localState m")
    case SymlinkCorrect
    with Cons.prems(1) have "linkLoop ?S s (r\<lparr>skipped := skipped r + 1\<rparr>) ms = (s', out)" by simp
    from Cons.IH [OF this Cons.prems(2) add' del'] show ?thesis .
  next
    case DirectoryExists
    with Cons.prems(1) have "linkLoop ?S s (r\<lparr>skipped := skipped r + 1\<rparr>) ms = (s', out)" by simp
    from Cons.IH [OF this Cons.prems(2) add' del'] show ?thesis .
  next
    case Missing
    show ?thesis
    proof (cases "fs_symlinkSync s (sourceFullPath m) (localFullPath m)")
      case (Inl e)
      with Missing Cons.prems(1) have "s' = s" by simp
      with Cons.prems(2) show ?thesis by simp
    next
      case (Inr s1)
      with Missing Cons.prems(1) have run1: "linkLoop ?S s1 (r\<lparr>created := created r + 1\<rparr>) ms = (s', out)"
        by simp
      from symlinkSync_ok [OF Inr] Missing have "P s1"
        using Cons.prems(3) [OF Cons.prems(2), of m] by (simp add: linkable_def)
      from Cons.IH [OF run1 this add' del'] show ?thesis .
    qed
  next
    case SymlinkWrong
    show ?thesis
    proof (cases "fs_unlinkSync s (localFullPath m)")
      case (Inl e)
      with SymlinkWrong Cons.prems(1) have "s' = s" by simp
      with Cons.prems(2) show ?thesis by simp
    next
      case (Inr s1)
      from unlinkSync_ok [OF Inr] SymlinkWrong have p1: "P s1"
        using Cons.prems(4) [OF Cons.prems(2), of m] by auto
      show ?thesis
      proof (cases "fs_symlinkSync s1 (sourceFullPath m) (localFullPath m)")
        case (Inl e)
        with SymlinkWrong \<open>fs_unlinkSync s (localFullPath m) = Inr s1\<close> Cons.prems(1) have "s' = s1" by simp
        with p1 show ?thesis by simp
      next
        case (Inr s2)
        with SymlinkWrong \<open>fs_unlinkSync s (localFullPath m) = Inr s1\<close> Cons.prems(1)
        have run2: "linkLoop ?S s2 (r\<lparr>updated := updated r + 1\<rparr>) ms = (s', out)" by simp
        from symlinkSync_ok [OF Inr] SymlinkWrong have "P s2"
          using Cons.prems(3) [OF p1, of m] by (simp add: linkable_def)
        from Cons.IH [OF run2 this add' del'] show ?thesis .
      qed
    qed
  qed
qed

lemma linkLoop_frame:
  assumes "linkLoop (nodeSys h c) s r ms = (s', out)"
    and "\<forall>m \<in> set ms. linkable m \<longrightarrow> localFullPath m \<noteq> q"
  shows "map_of s' q = map_of s q"
proof (rule linkLoop_invariant [OF assms(1), where P = "\<lambda>fs. map_of fs q = map_of s q"])
  show "map_of s q = map_of s q" by simp
next
  fix fs m assume "map_of fs q = map_of s q" "m \<in> set ms" "linkable m"
  with assms(2) show "map_of (fs @ [(localFullPath m, Symlink (sourceFullPath m))]) q = map_of s q"
    by (auto simp: map_of_snoc simp del: map_of_append split: option.splits)
next
  fix fs m n assume "map_of fs q = map_of s q" "m \<in> set ms" "localState m = SymlinkWrong"
  with assms(2) show "map_of (filter (\<lambda>e. fst e \<noteq> localFullPath m) fs) q = map_of s q"
    by (auto simp: map_of_remove linkable_def)
qed

lemma linkLoop_keeps:
  assumes "linkLoop (nodeSys h c) s r ms = (s', out)"
    and "map_of s q = Some n"
    and "\<forall>m \<in> set ms. localState m = SymlinkWrong \<longrightarrow> localFullPath m \<noteq> q"
  shows "map_of s' q = Some n"
proof (rule linkLoop_invariant [OF assms(1), where P = "\<lambda>fs. map_of fs q = Some n"])
  show "map_of s q = Some n" by (rule assms(2))
next
  fix fs m assume "map_of fs q = Some n" "map_of fs (localFullPath m) = None"
  then show "map_of (fs @ [(localFullPath m, Symlink (sourceFullPath m))]) q = Some n"
    by (auto simp: map_of_snoc simp del: map_of_append split: option.splits)
next
  fix fs m k assume "map_of fs q = Some n" "m \<in> set ms" "localState m = SymlinkWrong"
  with assms(3) show "map_of (filter (\<lambda>e. fst e \<noteq> localFullPath m) fs) q = Some n"
    by (auto simp: map_of_remove)
qed

lemma linkLoop_dir:
  assumes "linkLoop (nodeSys h c) s r ms = (s', out)" and "map_of s q = Some Dir"
  shows "map_of s' q = Some Dir"
proof (rule linkLoop_invariant [OF assms(1), where P = "\<lambda>fs. map_of fs q = Some Dir"])
  show "map_of s q = Some Dir" by (rule assms(2))
next
  fix fs m assume "map_of fs q = Some Dir" "map_of fs (localFullPath m) = None"
  then show "map_of (fs @ [(localFullPath m, Symlink (sourceFullPath m))]) q = Some Dir"
    by (auto simp: map_of_snoc simp del: map_of_append split: option.splits)
next
  fix fs m k assume "map_of fs q = Some Dir" "map_of fs (localFullPath m) = Some k" "k \<noteq> Dir"
  then show "map_of (filter (\<lambda>e. fst e \<noteq> localFullPath m) fs) q = Some Dir"
    by (auto simp: map_of_remove)
qed

lemma entriesOf_snoc: "childName d p = None \<Longrightarrow> entriesOf d (fs @ [(p, v)]) = entriesOf d fs"
  by (simp add: entriesOf_def List.map_filter_def)

lemma entriesOf_remove:
  "childName d p = None \<Longrightarrow> entriesOf d (filter (\<lambda>e. fst e \<noteq> p) fs) = entriesOf d fs"
  by (induction fs) (auto simp: entriesOf_def List.map_filter_def)

lemma linkLoop_entries:
  assumes "linkLoop (nodeSys h c) s r ms = (s', out)"
    and "\<forall>m \<in> set ms. linkable m \<longrightarrow> childName d (localFullPath m) = None"
  shows "entriesOf d s' = entriesOf d s"
proof (rule linkLoop_invariant [OF assms(1), where P = "\<lambda>fs. entriesOf d fs = entriesOf d s"])
  show "entriesOf d s = entriesOf d s" by simp
next
  fix fs m assume "entriesOf d fs = entriesOf d s" "m \<in> set ms" "linkable m"
  with assms(2) show "entriesOf d (fs @ [(localFullPath m, Symlink (sourceFullPath m))]) = entriesOf d s"
    by (simp add: entriesOf_snoc)
next
  fix fs m n assume "entriesOf d fs = entriesOf d s" "m \<in> set ms" "localState m = SymlinkWrong"
  with assms(2) show "entriesOf d (filter (\<lambda>e. fst e \<noteq> localFullPath m) fs) = entriesOf d s"
    by (simp add: entriesOf_remove linkable_def)
qed

lemma linkLoop_linked:
  "linkLoop (nodeSys h c) s r ms = (s', Inr r') \<Longrightarrow> distinct (map localFullPath ms) \<Longrightarrow>
     m \<in> set ms \<Longrightarrow> linkable m \<Longrightarrow>
     map_of s' (localFullPath m) = Some (Symlink (sourceFullPath m))"
proof (induction ms arbitrary: s r)
  case Nil then show ?case by simp
next
  case (Cons x ms)
  let ?S = "nodeSys h c"
  from Cons.prems(2) have d: "distinct (map localFullPath ms)"
    and nx: "\<forall>y \<in> set ms. localFullPath y \<noteq> localFullPath x" by (auto simp: image_iff)
  show ?case
  proof (cases "m = x")
    case False
    with Cons.prems(3) have mem: "m \<in> set ms" by simp
    from Cons.prems(1) obtain s1 r1 where "linkLoop ?S s1 r1 ms = (s', Inr r')"
      by (cases "localState x") (auto split: sum.splits)
    from Cons.IH [OF this d mem Cons.prems(4)] show ?thesis .
  next
    case True
    from Cons.prems(4) True have lx: "localState x = Missing \<or> localState x = SymlinkWrong"
      by (simp add: linkable_def)
    have "\<exists>s1 r1. linkLoop ?S s1 r1 ms = (s', Inr r')
        \<and> map_of s1 (localFullPath x) = Some (Symlink (sourceFullPath x))"
    proof -
      from lx show ?thesis
      proof
        assume st: "localState x = Missing"
        with Cons.prems(1) obtain s1 where a: "fs_symlinkSync s (sourceFullPath x) (localFullPath x) = Inr s1"
          and b: "linkLoop ?S s1 (r\<lparr>created := created r + 1\<rparr>) ms = (s', Inr r')"
          by (auto split: sum.splits)
        from symlinkSync_nodes [OF a] b show ?thesis by auto
      next
        assume st: "localState x = SymlinkWrong"
        with Cons.prems(1) obtain s1 s2 where
          a: "fs_symlinkSync s1 (sourceFullPath x) (localFullPath x) = Inr s2"
          and b: "linkLoop ?S s2 (r\<lparr>updated := updated r + 1\<rparr>) ms = (s', Inr r')"
          by (auto split: sum.splits)
        from symlinkSync_nodes [OF a] b show ?thesis by auto
      qed
    qed
    then obtain s1 r1 where run: "linkLoop ?S s1 r1 ms = (s', Inr r')"
      and node: "map_of s1 (localFullPath x) = Some (Symlink (sourceFullPath x))" by blast
    from nx have "\<forall>y \<in> set ms. linkable y \<longrightarrow> localFullPath y \<noteq> localFullPath x" by simp
    from linkLoop_frame [OF run this] node True show ?thesis by simp
  qed
qed

section \<open>Discovery and classification on the filesystem model\<close>

lemma discoverEntry_kept:
  "discoverEntry sys s sp er el e = (if kept er e then Some (mappingOf sys s sp er el e) else None)"
  by (auto simp: discoverEntry_def kept_def mappingOf_def Let_def)

lemma discoverEntry_fun:
  "discoverEntry sys s sp er el = (\<lambda>e. if kept er e then Some (mappingOf sys s sp er el e) else None)"
  by (rule ext) (rule discoverEntry_kept)

lemma discoverMappings_Inr:
  "discoverMappings sys s sp rp lp = Inr ms \<Longrightarrow>
     existsSync sys s sp \<and>
     (\<exists>entries. readdirSync sys s sp = Inr entries \<and>
        ms = map (mappingOf sys s sp (encodePrefix rp) (encodePrefix lp))
               (filter (kept (encodePrefix rp)) entries))"
  by (auto simp: discoverMappings_def Let_def discoverEntry_fun map_filter_if
      split: if_splits sum.splits)

lemma discoverMappings_ok:
  "existsSync sys s sp \<Longrightarrow> readdirSync sys s sp = Inr entries \<Longrightarrow>
     discoverMappings sys s sp rp lp =
       Inr (map (mappingOf sys s sp (encodePrefix rp) (encodePrefix lp))
              (filter (kept (encodePrefix rp)) entries))"
  by (simp add: discoverMappings_def Let_def discoverEntry_fun map_filter_if)

lemma childName_Some:
  "childName d q = Some nm \<longleftrightarrow> q = d @ ''/'' @ nm \<and> nm \<noteq> [] \<and> CHR ''/'' \<notin> set nm"
  by (auto simp: childName_def Let_def prefix_def)

lemma entriesOf_mem:
  "e \<in> set (entriesOf d fs) \<longleftrightarrow>
     (\<exists>n. (d @ ''/'' @ ent_name e, n) \<in> set fs \<and> ent_type e = ftypeOf n
          \<and> ent_name e \<noteq> [] \<and> CHR ''/'' \<notin> set (ent_name e))"
proof (induction fs)
  case Nil then show ?case by (simp add: entriesOf_def List.map_filter_simps)
next
  case (Cons a fs)
  obtain q n where a: "a = (q, n)" by (cases a)
  have step: "entriesOf d (a # fs) =
      (case childName d q of None \<Rightarrow> entriesOf d fs
       | Some nm \<Rightarrow> \<lparr> ent_name = nm, ent_type = ftypeOf n \<rparr> # entriesOf d fs)"
    by (simp add: entriesOf_def List.map_filter_simps a split: option.splits)
  show ?case
  proof (cases "childName d q")
    case None
    then have "q \<noteq> d @ ''/'' @ ent_name e \<or> ent_name e = [] \<or> CHR ''/'' \<in> set (ent_name e)"
      using childName_Some [of d q "ent_name e"] by auto
    with None step Cons.IH a show ?thesis by auto
  next
    case (Some nm)
    then have q: "q = d @ ''/'' @ nm" "nm \<noteq> []" "CHR ''/'' \<notin> set nm"
      by (simp_all add: childName_Some)
    show ?thesis using Some step Cons.IH a q by (cases e) auto
  qed
qed

lemma entriesOf_names_distinct:
  "distinct (map fst fs) \<Longrightarrow> distinct (map ent_name (entriesOf d fs))"
proof (induction fs)
  case Nil then show ?case by (simp add: entriesOf_def List.map_filter_simps)
next
  case (Cons a fs)
  obtain q n where a: "a = (q, n)" by (cases a)
  have step: "entriesOf d (a # fs) =
      (case childName d q of None \<Rightarrow> entriesOf d fs
       | Some nm \<Rightarrow> \<lparr> ent_name = nm, ent_type = ftypeOf n \<rparr> # entriesOf d fs)"
    by (simp add: entriesOf_def List.map_filter_simps a split: option.splits)
  from Cons.prems a have nq: "q \<notin> fst ` set fs" and d: "distinct (map fst fs)" by auto
  show ?case
  proof (cases "childName d q")
    case None with step Cons.IH [OF d] show ?thesis by simp
  next
    case (Some nm)
    then have q: "q = d @ ''/'' @ nm" by (simp add: childName_Some)
    have "nm \<notin> ent_name ` set (entriesOf d fs)"
    proof
      assume "nm \<in> ent_name ` set (entriesOf d fs)"
      then obtain e where "e \<in> set (entriesOf d fs)" "ent_name e = nm" by auto
      then obtain k where "(d @ ''/'' @ nm, k) \<in> set fs" by (auto simp: entriesOf_mem)
      with q nq show False by force
    qed
    with Some step Cons.IH [OF d] show ?thesis by simp
  qed
qed

lemma follow_exists_node: "follow n fs p \<noteq> None \<Longrightarrow> map_of fs p \<noteq> None"
  by (cases n) (auto split: option.splits)

lemma existsSync_node: "fs_existsSync fs p \<Longrightarrow> map_of fs p \<noteq> None"
  unfolding fs_existsSync_def by (rule follow_exists_node)

lemma follow_plain: "map_of fs p = Some n \<Longrightarrow> \<forall>t. n \<noteq> Symlink t \<Longrightarrow> follow (Suc k) fs p = Some n"
  by (cases n) auto

declare follow.simps [simp del]

lemma forty: "(40::nat) = Suc 39"
  by simp

lemma existsSync_plain: "map_of fs p = Some n \<Longrightarrow> \<forall>t. n \<noteq> Symlink t \<Longrightarrow> fs_existsSync fs p"
  unfolding fs_existsSync_def forty using follow_plain [of fs p n 39] by simp

lemma classify_nodeSys:
  "classify (nodeSys h c) fs p sp =
     (if \<not> fs_existsSync fs p then Missing
      else case map_of fs p of
             None \<Rightarrow> Missing
           | Some (Symlink t) \<Rightarrow>
               if fs_resolve c t = fs_resolve c sp then SymlinkCorrect else SymlinkWrong
           | Some _ \<Rightarrow> DirectoryExists)"
  by (auto simp: classify_def fs_lstatSync_def fs_readlinkSync_def split: option.splits node.splits)

lemma classify_wrong_node:
  "classify (nodeSys h c) fs p sp = SymlinkWrong \<Longrightarrow> \<exists>t. map_of fs p = Some (Symlink t)"
  by (auto simp: classify_nodeSys split: if_splits option.splits node.splits)

lemma classify_correct_node:
  "classify (nodeSys h c) fs p sp = SymlinkCorrect \<Longrightarrow>
     \<exists>t. map_of fs p = Some (Symlink t) \<and> fs_resolve c t = fs_resolve c sp"
  by (auto simp: classify_nodeSys split: if_splits option.splits node.splits)

lemma classify_directory_node:
  "classify (nodeSys h c) fs p sp = DirectoryExists \<Longrightarrow>
     \<exists>n. map_of fs p = Some n \<and> (\<forall>t. n \<noteq> Symlink t)"
  by (auto simp: classify_nodeSys split: if_splits option.splits node.splits)

lemma classify_missing_node:
  "classify (nodeSys h c) fs p sp = Missing \<Longrightarrow> \<not> fs_existsSync fs p"
  by (auto simp: classify_nodeSys split: if_splits option.splits node.splits dest: existsSync_node)

section \<open>What a run of the link operation does\<close>

lemma linkLoop_split:
  "linkLoop sys s r (x # ms) = (s', Inr r') \<Longrightarrow>
     \<exists>s1 r1. linkLoop sys s r [x] = (s1, Inr r1) \<and> linkLoop sys s1 r1 ms = (s', Inr r')"
  by (cases "localState x") (auto split: sum.splits)

lemma linkLoop_by_state:
  "linkLoop sys s r ms = (s', Inr r') \<Longrightarrow>
     created r' = created r + length (filter (\<lambda>m. localState m = Missing) ms)
     \<and> updated r' = updated r + length (filter (\<lambda>m. localState m = SymlinkWrong) ms)
     \<and> skipped r' = skipped r
         + length (filter (\<lambda>m. localState m = SymlinkCorrect \<or> localState m = DirectoryExists) ms)"
proof (induction ms arbitrary: s r)
  case Nil then show ?case by simp
next
  case (Cons x ms)
  from linkLoop_split [OF Cons.prems] obtain s1 r1 where
    one: "linkLoop sys s r [x] = (s1, Inr r1)" and rest: "linkLoop sys s1 r1 ms = (s', Inr r')"
    by blast
  from one have "created r1 = created r + (if localState x = Missing then 1 else 0)
     \<and> updated r1 = updated r + (if localState x = SymlinkWrong then 1 else 0)
     \<and> skipped r1 = skipped r
          + (if localState x = SymlinkCorrect \<or> localState x = DirectoryExists then 1 else 0)"
    by (cases "localState x") (auto split: sum.splits)
  with Cons.IH [OF rest] show ?case by simp
qed

lemma linkLoop_pre:
  "linkLoop (nodeSys h c) s r ms = (s', Inr r') \<Longrightarrow> distinct (map localFullPath ms) \<Longrightarrow>
     m \<in> set ms \<Longrightarrow>
     (localState m = Missing \<longrightarrow> map_of s (localFullPath m) = None)
     \<and> (localState m = SymlinkWrong \<longrightarrow> (\<exists>n. map_of s (localFullPath m) = Some n \<and> n \<noteq> Dir))"
proof (induction ms arbitrary: s r)
  case Nil then show ?case by simp
next
  case (Cons x ms)
  let ?S = "nodeSys h c"
  from linkLoop_split [OF Cons.prems(1)] obtain s1 r1 where
    one: "linkLoop ?S s r [x] = (s1, Inr r1)" and rest: "linkLoop ?S s1 r1 ms = (s', Inr r')"
    by blast
  from Cons.prems(2) have d: "distinct (map localFullPath ms)"
    and nx: "\<forall>y \<in> set ms. localFullPath y \<noteq> localFullPath x" by (auto simp: image_iff)
  show ?case
  proof (cases "m = x")
    case True
    from one show ?thesis unfolding True
      by (cases "localState x") (auto split: sum.splits dest: symlinkSync_ok unlinkSync_ok)
  next
    case False
    with Cons.prems(3) have mem: "m \<in> set ms" by simp
    with nx have "\<forall>y \<in> set [x]. linkable y \<longrightarrow> localFullPath y \<noteq> localFullPath m" by auto
    from linkLoop_frame [OF one this] Cons.IH [OF rest d mem] show ?thesis by simp
  qed
qed

lemma ensureLocalDir_nodes:
  "ensureLocalDir (nodeSys h c) fs = Inr fs0 \<Longrightarrow>
     map_of fs0 q = map_of fs q
     \<or> (map_of fs q = None \<and> map_of fs0 q = Some Dir
         \<and> q \<in> set (ancestors (localClaudeProjects (nodeSys h c))))"
  by (auto simp: ensureLocalDir_def dest!: mkdirSync_nodes [where q = q]
      split: if_splits option.splits)

lemma linkLoop_one_nodes:
  "linkLoop (nodeSys h c) s r [x] = (s1, Inr r1) \<Longrightarrow>
     map_of s1 = (if linkable x then (map_of s)(localFullPath x \<mapsto> Symlink (sourceFullPath x))
                  else map_of s)"
  by (cases "localState x")
     (auto simp: linkable_def split: sum.splits dest!: symlinkSync_nodes unlinkSync_nodes)

lemma find_snoc:
  "List.find P (xs @ [x]) = (case List.find P xs of Some a \<Rightarrow> Some a | None \<Rightarrow> if P x then Some x else None)"
  by (induction xs) auto

lemma linkLoop_final:
  "linkLoop (nodeSys h c) s r ms = (s', Inr r') \<Longrightarrow>
     map_of s' q =
       (case List.find (\<lambda>m. linkable m \<and> localFullPath m = q) (rev ms) of
          Some m \<Rightarrow> Some (Symlink (sourceFullPath m))
        | None \<Rightarrow> map_of s q)"
proof (induction ms arbitrary: s r)
  case Nil then show ?case by simp
next
  case (Cons x ms)
  from linkLoop_split [OF Cons.prems] obtain s1 r1 where
    one: "linkLoop (nodeSys h c) s r [x] = (s1, Inr r1)"
    and rest: "linkLoop (nodeSys h c) s1 r1 ms = (s', Inr r')" by blast
  from Cons.IH [OF rest] linkLoop_one_nodes [OF one] show ?case
    by (auto simp: find_snoc split: option.splits)
qed

lemma doLink_on_filesystem:
  assumes run: "doLink (nodeSys h c) fs mappings = (fs', Inr r)"
  shows "\<exists>fs0. ensureLocalDir (nodeSys h c) fs = Inr fs0
      \<and> (\<forall>q. map_of fs' q =
            (case List.find (\<lambda>m. linkable m \<and> localFullPath m = q) (rev mappings) of
               Some m \<Rightarrow> Some (Symlink (sourceFullPath m))
             | None \<Rightarrow> map_of fs0 q))
      \<and> r = \<lparr> created = length (filter (\<lambda>m. localState m = Missing) mappings),
              updated = length (filter (\<lambda>m. localState m = SymlinkWrong) mappings),
              skipped = length (filter (\<lambda>m. localState m = SymlinkCorrect
                                            \<or> localState m = DirectoryExists) mappings) \<rparr>
      \<and> (distinct (map localFullPath mappings) \<longrightarrow>
           (\<forall>m \<in> set mappings. localState m = SymlinkCorrect \<or> localState m = DirectoryExists \<longrightarrow>
              map_of fs' (localFullPath m) = map_of fs0 (localFullPath m))
           \<and> (\<forall>m \<in> set mappings. localState m = SymlinkWrong \<longrightarrow>
                (\<exists>n. map_of fs0 (localFullPath m) = Some n \<and> n \<noteq> Dir)
                \<and> map_of fs' (localFullPath m) = Some (Symlink (sourceFullPath m)))
           \<and> (\<forall>m \<in> set mappings. localState m = Missing \<longrightarrow>
                map_of fs0 (localFullPath m) = None
                \<and> map_of fs' (localFullPath m) = Some (Symlink (sourceFullPath m))))"
proof -
  let ?S = "nodeSys h c"
  from run obtain fs0 where e: "ensureLocalDir ?S fs = Inr fs0"
    and loop: "linkLoop ?S fs0 \<lparr> created = 0, updated = 0, skipped = 0 \<rparr> mappings = (fs', Inr r)"
    by (auto simp: doLink_def split: sum.splits)
  have final: "\<forall>q. map_of fs' q =
            (case List.find (\<lambda>m. linkable m \<and> localFullPath m = q) (rev mappings) of
               Some m \<Rightarrow> Some (Symlink (sourceFullPath m))
             | None \<Rightarrow> map_of fs0 q)"
    using linkLoop_final [OF loop] by blast
  from linkLoop_by_state [OF loop]
  have counts: "r = \<lparr> created = length (filter (\<lambda>m. localState m = Missing) mappings),
              updated = length (filter (\<lambda>m. localState m = SymlinkWrong) mappings),
              skipped = length (filter (\<lambda>m. localState m = SymlinkCorrect
                                            \<or> localState m = DirectoryExists) mappings) \<rparr>"
    by (cases r) simp
  have each: "(\<forall>m \<in> set mappings. localState m = SymlinkCorrect \<or> localState m = DirectoryExists \<longrightarrow>
              map_of fs' (localFullPath m) = map_of fs0 (localFullPath m))
           \<and> (\<forall>m \<in> set mappings. localState m = SymlinkWrong \<longrightarrow>
                (\<exists>n. map_of fs0 (localFullPath m) = Some n \<and> n \<noteq> Dir)
                \<and> map_of fs' (localFullPath m) = Some (Symlink (sourceFullPath m)))
           \<and> (\<forall>m \<in> set mappings. localState m = Missing \<longrightarrow>
                map_of fs0 (localFullPath m) = None
                \<and> map_of fs' (localFullPath m) = Some (Symlink (sourceFullPath m)))"
    if dist: "distinct (map localFullPath mappings)"
  proof -
    have skip: "map_of fs' (localFullPath m) = map_of fs0 (localFullPath m)"
      if "m \<in> set mappings" "localState m = SymlinkCorrect \<or> localState m = DirectoryExists" for m
    proof (rule linkLoop_frame [OF loop], intro ballI impI)
      fix y assume y: "y \<in> set mappings" "linkable y"
      with that have "y \<noteq> m" by (auto simp: linkable_def)
      with dist y(1) that(1) show "localFullPath y \<noteq> localFullPath m"
        by (auto simp: distinct_map inj_on_def)
    qed
    have linked: "map_of fs' (localFullPath m) = Some (Symlink (sourceFullPath m))"
      if "m \<in> set mappings" "linkable m" for m
      using linkLoop_linked [OF loop dist that] .
    have pre: "(localState m = Missing \<longrightarrow> map_of fs0 (localFullPath m) = None)
       \<and> (localState m = SymlinkWrong \<longrightarrow> (\<exists>n. map_of fs0 (localFullPath m) = Some n \<and> n \<noteq> Dir))"
      if "m \<in> set mappings" for m
      using linkLoop_pre [OF loop dist that] .
    from skip linked pre show ?thesis by (simp add: linkable_def)
  qed
  show ?thesis
    apply (rule exI [of _ fs0])
    using e final counts each by blast
qed

lemma readdirSync_Inr: "fs_readdirSync fs d = Inr entries \<Longrightarrow> isDirAt fs d \<and> entries = entriesOf d fs"
  by (auto simp: fs_readdirSync_def split: if_splits)

lemma discovered:
  assumes "discoverMappings (nodeSys h c) fs sp rp lp = Inr found"
  shows "fs_existsSync fs sp" and "isDirAt fs sp"
    and "found = map (mappingOf (nodeSys h c) fs sp (encodePrefix rp) (encodePrefix lp))
                   (filter (kept (encodePrefix rp)) (entriesOf sp fs))"
  using discoverMappings_Inr [OF assms] by (auto dest: readdirSync_Inr)

lemma lcp_nodeSys: "localClaudeProjects (nodeSys h c) = h @ ''/.claude/projects''"
  by (simp add: localClaudeProjects_def)

lemma discovered_mapping:
  assumes "discoverMappings (nodeSys h c) fs sp rp lp = Inr found" and "m \<in> set found"
  shows "\<exists>e \<in> set (entriesOf sp fs). startsWith (ent_name e) (encodePrefix rp)
           \<and> sourceDirName m = ent_name e
           \<and> sourceFullPath m = sp @ ''/'' @ ent_name e
           \<and> localDirName m = encodePrefix lp @ drop (length (encodePrefix rp)) (ent_name e)"
    and "localFullPath m = localClaudeProjects (nodeSys h c) @ ''/'' @ localDirName m"
    and "CHR ''/'' \<notin> set (localDirName m)"
    and "localState m = classify (nodeSys h c) fs (localFullPath m) (sourceFullPath m)"
proof -
  from discovered(3) [OF assms(1)] assms(2) obtain e where
    e: "e \<in> set (entriesOf sp fs)" "kept (encodePrefix rp) e"
    and m: "m = mappingOf (nodeSys h c) fs sp (encodePrefix rp) (encodePrefix lp) e" by auto
  from e m show "\<exists>e \<in> set (entriesOf sp fs). startsWith (ent_name e) (encodePrefix rp)
           \<and> sourceDirName m = ent_name e
           \<and> sourceFullPath m = sp @ ''/'' @ ent_name e
           \<and> localDirName m = encodePrefix lp @ drop (length (encodePrefix rp)) (ent_name e)"
    by (auto simp: mappingOf_def kept_def)
  from m show "localFullPath m = localClaudeProjects (nodeSys h c) @ ''/'' @ localDirName m"
    by (simp add: mappingOf_def)
  from e(1) have "CHR ''/'' \<notin> set (ent_name e)" by (auto simp: entriesOf_mem)
  then have "CHR ''/'' \<notin> set (drop (length (encodePrefix rp)) (ent_name e))"
    by (meson in_set_dropD)
  with m show "CHR ''/'' \<notin> set (localDirName m)"
    by (simp add: mappingOf_def encodePrefix_no_separator)
  from m show "localState m = classify (nodeSys h c) fs (localFullPath m) (sourceFullPath m)"
    by (simp add: mappingOf_def)
qed

lemma ancestors_prefix: "a \<in> set (ancestors p) \<Longrightarrow> prefix a p"
  by (auto simp: ancestors_def take_is_prefix)

lemma ensureLocalDir_keeps:
  "ensureLocalDir (nodeSys h c) fs = Inr fs0 \<Longrightarrow> map_of fs q = Some n \<Longrightarrow> map_of fs0 q = Some n"
  by (auto simp: ensureLocalDir_def dest!: mkdirSync_nodes [where q = q] split: if_splits)

lemma doLink_dir:
  assumes "doLink (nodeSys h c) fs ms = (fs', out)" and "map_of fs q = Some Dir"
  shows "map_of fs' q = Some Dir"
proof (cases "ensureLocalDir (nodeSys h c) fs")
  case (Inl e)
  with assms show ?thesis by (simp add: doLink_def)
next
  case (Inr fs0)
  with assms(1) have "linkLoop (nodeSys h c) fs0 \<lparr> created = 0, updated = 0, skipped = 0 \<rparr> ms = (fs', out)"
    by (simp add: doLink_def)
  from linkLoop_dir [OF this ensureLocalDir_keeps [OF Inr assms(2)]] show ?thesis .
qed

lemma cmdLink_doLink:
  "cmdLink sys s sp rp lp = (s', res) \<Longrightarrow> discoverMappings sys s sp rp lp = Inr found \<Longrightarrow>
     \<exists>out. doLink sys s found = (s', out)"
  by (auto simp: cmdLink_def split: sum.splits prod.splits)

text \<open>
  Claim C3. A mapping in state directory-exists makes the loop do nothing but count it as
  skipped. No run of \<open>doLink\<close>, on any mappings and however it ends, changes a path that
  holds a directory. In a run of \<open>link\<close>, the local path of every mapping found in state
  directory-exists holds the same entry afterwards, as does every path below it.
\<close>

theorem link_never_touches_local_directory:
  "(localState m = DirectoryExists \<longrightarrow>
      linkLoop sys s r (m # ms) = linkLoop sys s (r\<lparr>skipped := skipped r + 1\<rparr>) ms)
   \<and> (doLink (nodeSys h c) fs mappings = (fs', out) \<and> map_of fs q = Some Dir \<longrightarrow>
        map_of fs' q = Some Dir)
   \<and> (cmdLink (nodeSys h c) fs sourcePath remotePrefix localPrefix = (fs1, res)
        \<and> discoverMappings (nodeSys h c) fs sourcePath remotePrefix localPrefix = Inr found
        \<and> x \<in> set found \<and> localState x = DirectoryExists \<longrightarrow>
        (\<exists>n. map_of fs (localFullPath x) = Some n \<and> (\<forall>t. n \<noteq> Symlink t)
              \<and> map_of fs1 (localFullPath x) = Some n)
        \<and> (\<forall>p. prefix (localFullPath x @ ''/'') p \<longrightarrow> map_of fs1 p = map_of fs p))"
proof (intro conjI impI)
  assume "localState m = DirectoryExists"
  then show "linkLoop sys s r (m # ms) = linkLoop sys s (r\<lparr>skipped := skipped r + 1\<rparr>) ms"
    by simp
next
  assume "doLink (nodeSys h c) fs mappings = (fs', out) \<and> map_of fs q = Some Dir"
  then show "map_of fs' q = Some Dir" using doLink_dir by blast
next
  let ?S = "nodeSys h c"
  assume a: "cmdLink ?S fs sourcePath remotePrefix localPrefix = (fs1, res)
        \<and> discoverMappings ?S fs sourcePath remotePrefix localPrefix = Inr found
        \<and> x \<in> set found \<and> localState x = DirectoryExists"
  then have d: "discoverMappings ?S fs sourcePath remotePrefix localPrefix = Inr found"
    and x: "x \<in> set found" "localState x = DirectoryExists" by simp_all
  from a have "cmdLink ?S fs sourcePath remotePrefix localPrefix = (fs1, res)" by simp
  from cmdLink_doLink [OF this d] obtain o2 where run: "doLink ?S fs found = (fs1, o2)" by blast
  from discovered_mapping(4) [OF d x(1)] x(2)
  have "classify ?S fs (localFullPath x) (sourceFullPath x) = DirectoryExists" by simp
  from classify_directory_node [OF this] obtain n where
    n: "map_of fs (localFullPath x) = Some n" "\<forall>t. n \<noteq> Symlink t" by blast
  have wrong: "\<forall>y \<in> set found. localState y = SymlinkWrong \<longrightarrow> localFullPath y \<noteq> localFullPath x"
  proof (intro ballI impI)
    fix y assume y: "y \<in> set found" "localState y = SymlinkWrong"
    from discovered_mapping(4) [OF d y(1)] y(2)
    have "classify ?S fs (localFullPath y) (sourceFullPath y) = SymlinkWrong" by simp
    from classify_wrong_node [OF this] n show "localFullPath y \<noteq> localFullPath x" by auto
  qed
  have below: "\<forall>y \<in> set found. linkable y \<longrightarrow> localFullPath y \<noteq> p"
    if p: "prefix (localFullPath x @ ''/'') p" for p
  proof (intro ballI impI notI)
    fix y assume y: "y \<in> set found" and eq: "localFullPath y = p"
    from p obtain rest where "p = localFullPath x @ ''/'' @ rest" by (auto simp: prefix_def)
    with eq discovered_mapping(2) [OF d y] discovered_mapping(2) [OF d x(1)]
    have "localDirName y = localDirName x @ ''/'' @ rest" by simp
    with discovered_mapping(3) [OF d y] show False by simp
  qed
  have notanc: "p \<notin> set (ancestors (localClaudeProjects ?S))"
    if p: "prefix (localFullPath x @ ''/'') p" for p
  proof
    assume "p \<in> set (ancestors (localClaudeProjects ?S))"
    then have "length p \<le> length (localClaudeProjects ?S)"
      using ancestors_prefix prefix_length_le by blast
    moreover from p have "length (localFullPath x @ ''/'') \<le> length p" by (rule prefix_length_le)
    ultimately show False using discovered_mapping(2) [OF d x(1)] by simp
  qed
  have both: "(\<exists>n. map_of fs (localFullPath x) = Some n \<and> (\<forall>t. n \<noteq> Symlink t)
              \<and> map_of fs1 (localFullPath x) = Some n)
        \<and> (\<forall>p. prefix (localFullPath x @ ''/'') p \<longrightarrow> map_of fs1 p = map_of fs p)"
  proof (cases "ensureLocalDir ?S fs")
    case (Inl e)
    with run have "fs1 = fs" by (simp add: doLink_def)
    with n show ?thesis by simp
  next
    case (Inr fs0)
    with run have loop: "linkLoop ?S fs0 \<lparr> created = 0, updated = 0, skipped = 0 \<rparr> found = (fs1, o2)"
      by (simp add: doLink_def)
    from linkLoop_keeps [OF loop ensureLocalDir_keeps [OF Inr n(1)] wrong]
    have keep: "map_of fs1 (localFullPath x) = Some n" .
    have "map_of fs1 p = map_of fs p" if p: "prefix (localFullPath x @ ''/'') p" for p
    proof -
      from linkLoop_frame [OF loop below [OF p]] have "map_of fs1 p = map_of fs0 p" .
      moreover from ensureLocalDir_nodes [OF Inr, of p] notanc [OF p] have "map_of fs0 p = map_of fs p"
        by auto
      ultimately show ?thesis by simp
    qed
    with keep n show ?thesis by blast
  qed
  from both show "\<exists>n. map_of fs (localFullPath x) = Some n \<and> (\<forall>t. n \<noteq> Symlink t)
              \<and> map_of fs1 (localFullPath x) = Some n" by blast
  from both show "\<forall>p. prefix (localFullPath x @ ''/'') p \<longrightarrow> map_of fs1 p = map_of fs p" by blast
qed

theorem link_never_touches_local_directory_witness:
  "localState (exMappings ! 2) = DirectoryExists
   \<and> doLink (nodeSys ''/home/u'' ''/'') exFs exMappings =
        (exFsLinked, Inr \<lparr> created = 1, updated = 1, skipped = 2 \<rparr>)
   \<and> cmdLink (nodeSys ''/home/u'' ''/'') exFs ''/r'' ''/home/user'' ''/mnt/r'' =
        (exFsLinked, Inr \<lparr> created = 1, updated = 1, skipped = 2 \<rparr>)
   \<and> discoverMappings (nodeSys ''/home/u'' ''/'') exFs ''/r'' ''/home/user'' ''/mnt/r'' = Inr exMappings
   \<and> exMappings ! 2 \<in> set exMappings
   \<and> map_of exFs ''/home/u/.claude/projects/-mnt-r-work'' = Some Dir
   \<and> map_of exFsLinked ''/home/u/.claude/projects/-mnt-r-work'' = Some Dir
   \<and> map_of exFsLinked ''/home/u/.claude/projects/-mnt-r-work/x'' =
       map_of exFs ''/home/u/.claude/projects/-mnt-r-work/x''"
proof -
  let ?S = "nodeSys ''/home/u'' ''/''"
  let ?r = "\<lparr> created = 1, updated = 1, skipped = 2 \<rparr>"
  let ?x = "exMappings ! 2"
  have h1: "localState ?x = DirectoryExists" by code_simp
  have h2: "doLink ?S exFs exMappings = (exFsLinked, Inr ?r)" by code_simp
  have h3: "cmdLink ?S exFs ''/r'' ''/home/user'' ''/mnt/r'' = (exFsLinked, Inr ?r)" by code_simp
  have h4: "discoverMappings ?S exFs ''/r'' ''/home/user'' ''/mnt/r'' = Inr exMappings" by code_simp
  have h5: "?x \<in> set exMappings" by (simp add: exMappings_def)
  have h6: "map_of exFs ''/home/u/.claude/projects/-mnt-r-work'' = Some Dir" by (simp add: exFs_def)
  have h7: "localFullPath ?x = ''/home/u/.claude/projects/-mnt-r-work''" by (simp add: exMappings_def)
  have h8: "prefix (localFullPath ?x @ ''/'') ''/home/u/.claude/projects/-mnt-r-work/x''"
    by (simp add: h7)
  from link_never_touches_local_directory
    [of ?x "nodeSys ''/home/u'' ''/''" exFs "\<lparr> created = 0, updated = 0, skipped = 0 \<rparr>" "[]"
        "''/home/u''" "''/''" exFs exMappings exFsLinked "Inr ?r"
        "''/home/u/.claude/projects/-mnt-r-work''" "''/r''" "''/home/user''" "''/mnt/r''"
        exFsLinked "Inr ?r" exMappings ?x]
    h1 h2 h3 h4 h5 h6 h8
  have "map_of exFsLinked ''/home/u/.claude/projects/-mnt-r-work'' = Some Dir
      \<and> map_of exFsLinked ''/home/u/.claude/projects/-mnt-r-work/x'' =
         map_of exFs ''/home/u/.claude/projects/-mnt-r-work/x''"
    by blast
  with h1 h2 h3 h4 h5 h6 show ?thesis by blast
qed

section \<open>Paths below the local projects directory\<close>

lemma takeWhile_until: "c \<notin> set xs \<Longrightarrow> takeWhile (\<lambda>ch. ch \<noteq> c) (xs @ c # ys) = xs"
  by (induction xs) auto

lemma split_last_unique:
  assumes "a @ ''/'' @ x = b @ ''/'' @ y" and "CHR ''/'' \<notin> set x" and "CHR ''/'' \<notin> set y"
  shows "a = b \<and> x = y"
proof -
  from assms(1) have "rev x @ ''/'' @ rev a = rev y @ ''/'' @ rev b"
    by (metis append_assoc rev_append rev_singleton_conv rev_rev_ident)
  moreover have "takeWhile (\<lambda>ch. ch \<noteq> CHR ''/'') (rev x @ ''/'' @ rev a) = rev x"
    using assms(2) by (simp add: takeWhile_until)
  moreover have "takeWhile (\<lambda>ch. ch \<noteq> CHR ''/'') (rev y @ ''/'' @ rev b) = rev y"
    using assms(3) by (simp add: takeWhile_until)
  ultimately have "rev x = rev y" by simp
  then have "x = y" by simp
  with assms(1) show ?thesis by simp
qed

lemma childName_local:
  "CHR ''/'' \<notin> set x \<Longrightarrow> d \<noteq> b \<Longrightarrow> childName d (b @ ''/'' @ x) = None"
proof (rule ccontr)
  assume x: "CHR ''/'' \<notin> set x" and ne: "d \<noteq> b" and "childName d (b @ ''/'' @ x) \<noteq> None"
  then obtain nm where "childName d (b @ ''/'' @ x) = Some nm" by auto
  then have "b @ ''/'' @ x = d @ ''/'' @ nm" "CHR ''/'' \<notin> set nm" by (simp_all add: childName_Some)
  from split_last_unique [OF this(1) x this(2)] ne show False by simp
qed

lemma childName_ancestor:
  "a \<in> set (ancestors p) \<Longrightarrow> \<not> prefix d p \<Longrightarrow> childName d a = None"
proof (rule ccontr)
  assume a: "a \<in> set (ancestors p)" and np: "\<not> prefix d p" and "childName d a \<noteq> None"
  then obtain nm where "childName d a = Some nm" by auto
  then have "a = d @ ''/'' @ nm" by (simp add: childName_Some)
  then have "prefix d a" by simp
  with ancestors_prefix [OF a] np show False using prefix_order.trans by blast
qed

lemma map_of_removeAll:
  "map_of (filter (\<lambda>e. fst e \<notin> A) fs) q = (if q \<in> A then None else map_of fs q)"
  by (induction fs) auto

lemma entriesOf_removeAll:
  "\<forall>p \<in> A. childName d p = None \<Longrightarrow> entriesOf d (filter (\<lambda>e. fst e \<notin> A) fs) = entriesOf d fs"
  by (induction fs) (auto simp: entriesOf_def List.map_filter_def)

lemma unlinkLoop_run:
  "distinct (map localFullPath ms) \<Longrightarrow>
   \<forall>m \<in> set ms. isLinked m \<longrightarrow> (\<exists>t. map_of s (localFullPath m) = Some (Symlink t)) \<Longrightarrow>
     unlinkLoop (nodeSys h c) s k ms =
       (filter (\<lambda>e. fst e \<notin> localFullPath ` {m \<in> set ms. isLinked m}) s,
        Inr (k + length (filter isLinked ms)))"
proof (induction ms arbitrary: s k)
  case Nil then show ?case by simp
next
  case (Cons x ms)
  from Cons.prems(1) have d: "distinct (map localFullPath ms)"
    and nx: "\<forall>y \<in> set ms. localFullPath y \<noteq> localFullPath x" by (auto simp: image_iff)
  show ?case
  proof (cases "isLinked x")
    case False
    have "{m \<in> set (x # ms). isLinked m} = {m \<in> set ms. isLinked m}" using False by auto
    with False Cons.IH [OF d, of s k] Cons.prems(2) show ?thesis
      by (simp add: isLinked_def)
  next
    case True
    with Cons.prems(2) obtain t where t: "map_of s (localFullPath x) = Some (Symlink t)" by auto
    let ?s1 = "filter (\<lambda>e. fst e \<noteq> localFullPath x) s"
    have step: "unlinkLoop (nodeSys h c) s k (x # ms) = unlinkLoop (nodeSys h c) ?s1 (k + 1) ms"
      using True unlinkSync_link [OF t] by (simp add: isLinked_def)
    have pre: "\<forall>m \<in> set ms. isLinked m \<longrightarrow> (\<exists>t. map_of ?s1 (localFullPath m) = Some (Symlink t))"
      using Cons.prems(2) nx by (simp add: map_of_remove)
    have sets: "{m \<in> set (x # ms). isLinked m} = insert x {m \<in> set ms. isLinked m}"
      using True by auto
    have "filter (\<lambda>e. fst e \<notin> localFullPath ` {m \<in> set ms. isLinked m}) ?s1 =
          filter (\<lambda>e. fst e \<notin> localFullPath ` {m \<in> set (x # ms). isLinked m}) s"
      unfolding sets by (induction s) auto
    with step Cons.IH [OF d pre, of "k + 1"] True show ?thesis by simp
  qed
qed

lemma discovered_distinct:
  assumes d: "discoverMappings (nodeSys h c) fs sp rp lp = Inr found" and wf: "distinct (map fst fs)"
  shows "distinct (map localFullPath found)"
proof -
  let ?er = "encodePrefix rp" and ?el = "encodePrefix lp"
  let ?mk = "mappingOf (nodeSys h c) fs sp ?er ?el"
  let ?es = "filter (kept ?er) (entriesOf sp fs)"
  have found: "found = map ?mk ?es" by (rule discovered(3) [OF d])
  have names: "distinct (map ent_name (entriesOf sp fs))" by (rule entriesOf_names_distinct [OF wf])
  then have des: "distinct (map ent_name ?es)" by (rule distinct_map_filter)
  have inj: "inj_on (\<lambda>n. localClaudeProjects (nodeSys h c) @ ''/'' @ ?el @ drop (length ?er) n)
               (ent_name ` set ?es)"
  proof (rule inj_onI)
    fix a b assume a: "a \<in> ent_name ` set ?es" and b: "b \<in> ent_name ` set ?es"
      and eq: "localClaudeProjects (nodeSys h c) @ ''/'' @ ?el @ drop (length ?er) a =
               localClaudeProjects (nodeSys h c) @ ''/'' @ ?el @ drop (length ?er) b"
    from a have "prefix ?er a" by (auto simp: kept_def startsWith_def)
    then have pa: "a = ?er @ drop (length ?er) a" by (auto simp: prefix_def)
    from b have "prefix ?er b" by (auto simp: kept_def startsWith_def)
    then have pb: "b = ?er @ drop (length ?er) b" by (auto simp: prefix_def)
    from eq have "drop (length ?er) a = drop (length ?er) b" by simp
    with pa pb show "a = b" by metis
  qed
  have "map localFullPath found =
        map (\<lambda>n. localClaudeProjects (nodeSys h c) @ ''/'' @ ?el @ drop (length ?er) n) (map ent_name ?es)"
    by (simp add: found mappingOf_def)
  with des inj show ?thesis by (simp only: distinct_map) simp
qed

lemma discovered_source_dir:
  assumes d: "discoverMappings (nodeSys h c) fs sp rp lp = Inr found" and wf: "wfFs fs"
  shows "map_of fs sp = Some Dir"
proof -
  from discovered(1,2) [OF d] have e: "fs_existsSync fs sp" and i: "isDirAt fs sp" by simp_all
  from wf have "map_of fs [] = None" by (auto simp: wfFs_def map_of_eq_None_iff)
  with existsSync_node [OF e] have "sp \<noteq> []" by auto
  with i show ?thesis by (simp add: isDirAt_def)
qed

lemma classify_absent: "map_of fs p = None \<Longrightarrow> classify (nodeSys h c) fs p sp = Missing"
  using existsSync_node [of fs p] by (auto simp: classify_nodeSys)

section \<open>Unlinking\<close>

text \<open>
  Claim C8, as amended. On a well-formed filesystem where discovery succeeds, \<open>unlink\<close> returns; the
  count it reports is the number of mappings found in state symlink-correct or
  symlink-wrong; the local path of each of these held a symbolic link and holds nothing
  afterwards; the local path of every other mapping, and every path that is not the
  local path of such a mapping, is as before. When every mapping found is in state
  symlink-correct and the source directory is not the local projects directory, a scan of
  the resulting filesystem returns the same mappings, each in state missing.
\<close>

theorem unlink_removes_links:
  assumes wf: "wfFs fs"
    and d: "discoverMappings (nodeSys h c) fs sourcePath remotePrefix localPrefix = Inr found"
  shows "\<exists>fs1. cmdUnlink (nodeSys h c) fs sourcePath remotePrefix localPrefix =
                 (fs1, Inr (length (filter isLinked found)))
     \<and> (\<forall>m \<in> set found. isLinked m \<longrightarrow>
           (\<exists>t. map_of fs (localFullPath m) = Some (Symlink t)) \<and> map_of fs1 (localFullPath m) = None)
     \<and> (\<forall>m \<in> set found. \<not> isLinked m \<longrightarrow>
           map_of fs1 (localFullPath m) = map_of fs (localFullPath m))
     \<and> (\<forall>q. q \<notin> localFullPath ` {m \<in> set found. isLinked m} \<longrightarrow> map_of fs1 q = map_of fs q)
     \<and> ((\<forall>m \<in> set found. localState m = SymlinkCorrect)
          \<and> sourcePath \<noteq> localClaudeProjects (nodeSys h c) \<longrightarrow>
          cmdScan (nodeSys h c) fs1 sourcePath remotePrefix localPrefix =
            Inr (map (\<lambda>m. m\<lparr>localState := Missing\<rparr>) found))"
proof -
  let ?S = "nodeSys h c"
  let ?A = "localFullPath ` {m \<in> set found. isLinked m}"
  define fs1 where "fs1 = filter (\<lambda>e. fst e \<notin> ?A) fs"
  let ?er = "encodePrefix remotePrefix" and ?el = "encodePrefix localPrefix"
  from wf have dk: "distinct (map fst fs)" by (simp add: wfFs_def)
  have dist: "distinct (map localFullPath found)" by (rule discovered_distinct [OF d dk])
  have links: "\<exists>t. map_of fs (localFullPath m) = Some (Symlink t)" if "m \<in> set found" "isLinked m" for m
  proof -
    from discovered_mapping(4) [OF d that(1)] that(2)
    have "classify ?S fs (localFullPath m) (sourceFullPath m) = SymlinkCorrect
        \<or> classify ?S fs (localFullPath m) (sourceFullPath m) = SymlinkWrong"
      by (simp add: isLinked_def)
    then show ?thesis using classify_correct_node classify_wrong_node by blast
  qed
  then have "\<forall>m \<in> set found. isLinked m \<longrightarrow> (\<exists>t. map_of fs (localFullPath m) = Some (Symlink t))"
    by blast
  from unlinkLoop_run [OF dist this, of h c 0]
  have loop: "unlinkLoop ?S fs 0 found = (fs1, Inr (length (filter isLinked found)))"
    by (simp add: fs1_def)
  with d have run: "cmdUnlink ?S fs sourcePath remotePrefix localPrefix =
                 (fs1, Inr (length (filter isLinked found)))"
    by (simp add: cmdUnlink_def)
  have nodes: "map_of fs1 q = (if q \<in> ?A then None else map_of fs q)" for q
    unfolding fs1_def by (rule map_of_removeAll)
  have other: "localFullPath m \<notin> ?A" if m: "m \<in> set found" "\<not> isLinked m" for m
  proof
    assume "localFullPath m \<in> ?A"
    then obtain y where y: "y \<in> set found" "isLinked y" "localFullPath y = localFullPath m" by auto
    with m have "y \<noteq> m" by auto
    with dist y(1) m(1) y(3) show False by (auto simp: distinct_map inj_on_def)
  qed
  have scan: "cmdScan ?S fs1 sourcePath remotePrefix localPrefix =
            Inr (map (\<lambda>m. m\<lparr>localState := Missing\<rparr>) found)"
    if all: "\<forall>m \<in> set found. localState m = SymlinkCorrect"
      and apart: "sourcePath \<noteq> localClaudeProjects ?S"
  proof -
    have sd: "map_of fs sourcePath = Some Dir" by (rule discovered_source_dir [OF d wf])
    have "sourcePath \<notin> ?A"
    proof
      assume "sourcePath \<in> ?A"
      then obtain y where "y \<in> set found" "isLinked y" "localFullPath y = sourcePath" by auto
      with links [of y] sd show False by auto
    qed
    with sd nodes have sd1: "map_of fs1 sourcePath = Some Dir" by simp
    then have ex1: "existsSync ?S fs1 sourcePath" by (simp add: existsSync_plain)
    have "\<forall>p \<in> ?A. childName sourcePath p = None"
    proof
      fix p assume "p \<in> ?A"
      then obtain y where y: "y \<in> set found" "p = localFullPath y" by auto
      from discovered_mapping(2,3) [OF d y(1)] y(2) apart
        childName_local [of "localDirName y" sourcePath "localClaudeProjects ?S"]
      show "childName sourcePath p = None" by simp
    qed
    then have "entriesOf sourcePath fs1 = entriesOf sourcePath fs"
      unfolding fs1_def by (rule entriesOf_removeAll)
    with sd1 have rd: "readdirSync ?S fs1 sourcePath = Inr (entriesOf sourcePath fs)"
      by (simp add: fs_readdirSync_def isDirAt_def)
    have each: "mappingOf ?S fs1 sourcePath ?er ?el e =
        (mappingOf ?S fs sourcePath ?er ?el e)\<lparr>localState := Missing\<rparr>"
      if e: "e \<in> set (filter (kept ?er) (entriesOf sourcePath fs))" for e
    proof -
      let ?m = "mappingOf ?S fs sourcePath ?er ?el e"
      from e discovered(3) [OF d] have mem: "?m \<in> set found" by simp
      with all have "isLinked ?m" by (simp add: isLinked_def)
      with mem have "localFullPath ?m \<in> ?A" by blast
      with nodes have "map_of fs1 (localFullPath ?m) = None" by simp
      then have "classify ?S fs1 (localFullPath ?m) (sourceFullPath ?m) = Missing"
        by (rule classify_absent)
      then show ?thesis by (simp add: mappingOf_def)
    qed
    have "map (mappingOf ?S fs1 sourcePath ?er ?el) (filter (kept ?er) (entriesOf sourcePath fs)) =
          map (\<lambda>m. m\<lparr>localState := Missing\<rparr>) found"
      using each by (subst discovered(3) [OF d]) simp
    with discoverMappings_ok [OF ex1 rd, of remotePrefix localPrefix] show ?thesis
      by (simp add: cmdScan_def)
  qed
  show ?thesis
    apply (rule exI [of _ fs1])
    using run links nodes other scan by simp
qed

theorem unlink_removes_links_witness:
  "wfFs exFsBridged
   \<and> discoverMappings (nodeSys ''/home/u'' ''/'') exFsBridged ''/mnt/x'' ''/home/user'' ''/mnt/x/home/user''
       = Inr exBridgedMappings
   \<and> list_all (\<lambda>m. localState m = SymlinkCorrect) exBridgedMappings
   \<and> ''/mnt/x'' \<noteq> localClaudeProjects (nodeSys ''/home/u'' ''/'')
   \<and> cmdUnlink (nodeSys ''/home/u'' ''/'') exFsBridged ''/mnt/x'' ''/home/user'' ''/mnt/x/home/user''
       = (exFsUnbridged, Inr 2)
   \<and> cmdScan (nodeSys ''/home/u'' ''/'') exFsUnbridged ''/mnt/x'' ''/home/user'' ''/mnt/x/home/user''
       = Inr (map (\<lambda>m. m\<lparr>localState := Missing\<rparr>) exBridgedMappings)"
proof -
  let ?S = "nodeSys ''/home/u'' ''/''"
  have h1: "wfFs exFsBridged" by (simp add: wfFs_def exFsBridged_def)
  have h2: "discoverMappings ?S exFsBridged ''/mnt/x'' ''/home/user'' ''/mnt/x/home/user''
       = Inr exBridgedMappings" by code_simp
  have h3: "\<forall>m \<in> set exBridgedMappings. localState m = SymlinkCorrect"
    by (simp add: exBridgedMappings_def)
  have h4: "''/mnt/x'' \<noteq> localClaudeProjects ?S" by (simp add: localClaudeProjects_def)
  have run: "cmdUnlink ?S exFsBridged ''/mnt/x'' ''/home/user'' ''/mnt/x/home/user''
       = (exFsUnbridged, Inr 2)" by code_simp
  from unlink_removes_links [OF h1 h2] obtain fs1 where
    a: "cmdUnlink ?S exFsBridged ''/mnt/x'' ''/home/user'' ''/mnt/x/home/user''
         = (fs1, Inr (length (filter isLinked exBridgedMappings)))"
    and b: "(\<forall>m \<in> set exBridgedMappings. localState m = SymlinkCorrect)
          \<and> ''/mnt/x'' \<noteq> localClaudeProjects ?S \<longrightarrow>
          cmdScan ?S fs1 ''/mnt/x'' ''/home/user'' ''/mnt/x/home/user'' =
            Inr (map (\<lambda>m. m\<lparr>localState := Missing\<rparr>) exBridgedMappings)"
    by blast
  from a run have "fs1 = exFsUnbridged" by simp
  with b h3 h4 have "cmdScan ?S exFsUnbridged ''/mnt/x'' ''/home/user'' ''/mnt/x/home/user'' =
            Inr (map (\<lambda>m. m\<lparr>localState := Missing\<rparr>) exBridgedMappings)" by blast
  with h1 h2 h3 h4 run show ?thesis by (simp add: list_all_iff)
qed

lemma mkdir_fold_entries:
  "foldl mkdirStep (Inr fs) as = Inr fs' \<Longrightarrow> \<forall>a \<in> set as. childName d a = None \<Longrightarrow>
     entriesOf d fs' = entriesOf d fs"
proof (induction as arbitrary: fs)
  case Nil then show ?case by simp
next
  case (Cons a as)
  from Cons.prems(1) obtain f1 where s: "mkdirStep (Inr fs) a = Inr f1"
    and r: "foldl mkdirStep (Inr f1) as = Inr fs'"
    by (cases "mkdirStep (Inr fs) a") (simp_all add: mkdirStep_error)
  from Cons.prems(2) have rest: "\<forall>x \<in> set as. childName d x = None" and a: "childName d a = None"
    by simp_all
  from mkdirStep_ok [OF s] a have "entriesOf d f1 = entriesOf d fs"
    by (auto simp: entriesOf_snoc)
  with Cons.IH [OF r rest] show ?case by simp
qed

lemma ensureLocalDir_entries:
  assumes "ensureLocalDir (nodeSys h c) fs = Inr fs0"
    and "\<not> prefix d (localClaudeProjects (nodeSys h c))"
  shows "entriesOf d fs0 = entriesOf d fs"
proof (cases "fs_existsSync fs (localClaudeProjects (nodeSys h c))")
  case True
  with assms(1) show ?thesis by (simp add: ensureLocalDir_def)
next
  case False
  with assms(1) have "foldl mkdirStep (Inr fs) (ancestors (localClaudeProjects (nodeSys h c))) = Inr fs0"
    by (simp add: ensureLocalDir_def fs_mkdirSync_def)
  moreover have "\<forall>a \<in> set (ancestors (localClaudeProjects (nodeSys h c))). childName d a = None"
    using assms(2) childName_ancestor by blast
  ultimately show ?thesis by (rule mkdir_fold_entries)
qed

lemma linkLoop_skip_all:
  "\<forall>m \<in> set ms. \<not> linkable m \<Longrightarrow>
     linkLoop sys s r ms = (s, Inr (r\<lparr>skipped := skipped r + length ms\<rparr>))"
proof (induction ms arbitrary: r)
  case Nil then show ?case by simp
next
  case (Cons m ms)
  then have "localState m = SymlinkCorrect \<or> localState m = DirectoryExists"
    by (cases "localState m") (simp_all add: linkable_def)
  with Cons show ?case by auto
qed

text \<open>
  Claim C8 as the specification states it fails when the source directory is the local
  projects directory itself: there a link that \<open>unlink\<close> removes can be a source entry of
  another mapping. Both mappings found are in state symlink-correct, \<open>unlink\<close> removes two
  links, and the scan that follows returns one mapping only.
\<close>

theorem unlink_then_scan_counterexample:
  "discoverMappings exSys exFsSelf ''/home/u/.claude/projects'' ''/ab'' ''/a'' =
     Inr [\<lparr> sourceDirName = ''-abbc'', sourceFullPath = ''/home/u/.claude/projects/-abbc'',
            localDirName = ''-abc'', localFullPath = ''/home/u/.claude/projects/-abc'',
            localState = SymlinkCorrect \<rparr>,
          \<lparr> sourceDirName = ''-abc'', sourceFullPath = ''/home/u/.claude/projects/-abc'',
            localDirName = ''-ac'', localFullPath = ''/home/u/.claude/projects/-ac'',
            localState = SymlinkCorrect \<rparr>]
   \<and> cmdUnlink exSys exFsSelf ''/home/u/.claude/projects'' ''/ab'' ''/a'' =
       (exFsSelfUnlinked, Inr 2)
   \<and> cmdScan exSys exFsSelfUnlinked ''/home/u/.claude/projects'' ''/ab'' ''/a'' =
       Inr [\<lparr> sourceDirName = ''-abbc'', sourceFullPath = ''/home/u/.claude/projects/-abbc'',
              localDirName = ''-abc'', localFullPath = ''/home/u/.claude/projects/-abc'',
              localState = Missing \<rparr>]"
  by code_simp

section \<open>Linking twice\<close>

lemma ancestors_take:
  "1 \<le> i \<Longrightarrow> i < length p \<Longrightarrow> p ! i = CHR ''/'' \<Longrightarrow> take i p \<in> set (ancestors p)"
  by (auto simp: ancestors_def)

lemma childName_not_above:
  assumes a: "a \<in> set (ancestors p)" and ne: "d \<noteq> []" and na: "d \<notin> set (ancestors p)"
  shows "childName d a = None"
proof (rule ccontr)
  assume "childName d a \<noteq> None"
  then obtain nm where "childName d a = Some nm" by auto
  then have eq: "a = d @ ''/'' @ nm" by (simp add: childName_Some)
  from ancestors_prefix [OF a] obtain r where p: "p = a @ r" by (auto simp: prefix_def)
  with eq have p2: "p = d @ ''/'' @ nm @ r" by simp
  have "1 \<le> length d" using ne by (cases d) simp_all
  moreover have "length d < length p" using p2 by simp
  moreover have "p ! length d = CHR ''/''" using p2 by (simp add: nth_append)
  ultimately have "take (length d) p \<in> set (ancestors p)" by (rule ancestors_take)
  moreover have "take (length d) p = d" using p2 by simp
  ultimately show False using na by simp
qed

lemma dirname_join: "CHR ''/'' \<notin> set x \<Longrightarrow> dirname (a @ ''/'' @ x) = a"
proof -
  assume x: "CHR ''/'' \<notin> set x"
  then have "dropWhile (\<lambda>ch. ch \<noteq> CHR ''/'') (rev x @ CHR ''/'' # rev a) = CHR ''/'' # rev a"
    by (induction x rule: rev_induct) auto
  then show ?thesis by (simp add: dirname_def)
qed

lemma ensureLocalDir_entries_above:
  assumes "ensureLocalDir (nodeSys h c) fs = Inr fs0"
    and "d \<noteq> []" and "d \<notin> set (ancestors (localClaudeProjects (nodeSys h c)))"
  shows "entriesOf d fs0 = entriesOf d fs"
proof (cases "fs_existsSync fs (localClaudeProjects (nodeSys h c))")
  case True
  with assms(1) show ?thesis by (simp add: ensureLocalDir_def)
next
  case False
  with assms(1) have "foldl mkdirStep (Inr fs) (ancestors (localClaudeProjects (nodeSys h c))) = Inr fs0"
    by (simp add: ensureLocalDir_def fs_mkdirSync_def)
  moreover have "\<forall>a \<in> set (ancestors (localClaudeProjects (nodeSys h c))). childName d a = None"
    using assms(2,3) childName_not_above by blast
  ultimately show ?thesis by (rule mkdir_fold_entries)
qed

lemma linkLoop_needs_dir:
  "linkLoop (nodeSys h c) s r ms = (s', Inr r') \<Longrightarrow> \<exists>m \<in> set ms. linkable m \<Longrightarrow>
   \<forall>m \<in> set ms. dirname (localFullPath m) = d \<and> localFullPath m \<noteq> d \<Longrightarrow> isDirAt s d"
proof (induction ms arbitrary: s r)
  case Nil then show ?case by simp
next
  case (Cons x ms)
  let ?S = "nodeSys h c"
  from Cons.prems(3) have dx: "dirname (localFullPath x) = d" "localFullPath x \<noteq> d"
    and rest: "\<forall>m \<in> set ms. dirname (localFullPath m) = d \<and> localFullPath m \<noteq> d" by simp_all
  show ?case
  proof (cases "localState x")
    case Missing
    with Cons.prems(1) obtain s1 where "fs_symlinkSync s (sourceFullPath x) (localFullPath x) = Inr s1"
      by (auto split: sum.splits)
    from symlinkSync_ok [OF this] dx show ?thesis by simp
  next
    case SymlinkWrong
    with Cons.prems(1) obtain s1 s2 where u: "fs_unlinkSync s (localFullPath x) = Inr s1"
      and y: "fs_symlinkSync s1 (sourceFullPath x) (localFullPath x) = Inr s2"
      by (auto split: sum.splits)
    from symlinkSync_ok [OF y] dx have "isDirAt s1 d" by simp
    with unlinkSync_nodes [OF u] dx(2) show ?thesis by (auto simp: isDirAt_def)
  next
    case SymlinkCorrect
    with Cons.prems(1) have run: "linkLoop ?S s (r\<lparr>skipped := skipped r + 1\<rparr>) ms = (s', Inr r')" by simp
    from SymlinkCorrect Cons.prems(2) have "\<exists>m \<in> set ms. linkable m" by (auto simp: linkable_def)
    from Cons.IH [OF run this rest] show ?thesis .
  next
    case DirectoryExists
    with Cons.prems(1) have run: "linkLoop ?S s (r\<lparr>skipped := skipped r + 1\<rparr>) ms = (s', Inr r')" by simp
    from DirectoryExists Cons.prems(2) have "\<exists>m \<in> set ms. linkable m" by (auto simp: linkable_def)
    from Cons.IH [OF run this rest] show ?thesis .
  qed
qed

text \<open>
  Claim C2, as amended. Take a well-formed filesystem and a source directory that is
  neither the local projects directory nor a directory above it. If \<open>link\<close> returns,
  and afterwards the local path of every mapping leads to something that exists, then
  \<open>link\<close> run again with the same arguments changes nothing and returns no creation, no
  update and as many skipped mappings as there are mappings: the sum of the three
  counters of the first run.
\<close>

theorem link_twice_skips_everything:
  assumes wf: "wfFs fs"
    and apart: "sourcePath \<notin> set (ancestors (localClaudeProjects (nodeSys h c)))"
    and d: "discoverMappings (nodeSys h c) fs sourcePath remotePrefix localPrefix = Inr found"
    and first: "cmdLink (nodeSys h c) fs sourcePath remotePrefix localPrefix = (fs1, Inr r1)"
    and resolves: "\<forall>m \<in> set found. existsSync (nodeSys h c) fs1 (localFullPath m)"
  shows "cmdLink (nodeSys h c) fs1 sourcePath remotePrefix localPrefix =
           (fs1, Inr \<lparr> created = 0, updated = 0, skipped = created r1 + updated r1 + skipped r1 \<rparr>)
         \<and> created r1 + updated r1 + skipped r1 = length found"
proof -
  let ?S = "nodeSys h c"
  let ?lcp = "localClaudeProjects ?S"
  let ?er = "encodePrefix remotePrefix" and ?el = "encodePrefix localPrefix"
  let ?es = "filter (kept ?er) (entriesOf sourcePath fs)"
  let ?zero = "\<lparr> created = 0, updated = 0, skipped = 0 \<rparr>"
  from wf have dk: "distinct (map fst fs)" by (simp add: wfFs_def)
  have dist: "distinct (map localFullPath found)" by (rule discovered_distinct [OF d dk])
  have found: "found = map (mappingOf ?S fs sourcePath ?er ?el) ?es" by (rule discovered(3) [OF d])
  from first d have run: "doLink ?S fs found = (fs1, Inr r1)"
    by (auto simp: cmdLink_def split: prod.splits sum.splits)
  then obtain fs0 where e0: "ensureLocalDir ?S fs = Inr fs0"
    and loop: "linkLoop ?S fs0 ?zero found = (fs1, Inr r1)"
    by (auto simp: doLink_def split: sum.splits)
  from linkLoop_count [OF loop] have n: "created r1 + updated r1 + skipped r1 = length found" by simp
  \<comment> \<open>the source directory is still there and lists the same entries\<close>
  have sd: "map_of fs sourcePath = Some Dir" by (rule discovered_source_dir [OF d wf])
  from wf have "map_of fs [] = None" by (auto simp: wfFs_def map_of_eq_None_iff)
  with sd have sne: "sourcePath \<noteq> []" by auto
  have sd1: "map_of fs1 sourcePath = Some Dir" by (rule doLink_dir [OF run sd])
  then have ex1: "existsSync ?S fs1 sourcePath" by (simp add: existsSync_plain)
  have "?lcp \<in> set (ancestors ?lcp)" by (simp add: ancestors_def)
  with apart have ne: "sourcePath \<noteq> ?lcp" by auto
  have "\<forall>m \<in> set found. linkable m \<longrightarrow> childName sourcePath (localFullPath m) = None"
  proof (intro ballI impI)
    fix m assume m: "m \<in> set found"
    from discovered_mapping(2,3) [OF d m] ne childName_local [of "localDirName m" sourcePath ?lcp]
    show "childName sourcePath (localFullPath m) = None" by simp
  qed
  from linkLoop_entries [OF loop this] ensureLocalDir_entries_above [OF e0 sne apart]
  have "entriesOf sourcePath fs1 = entriesOf sourcePath fs" by simp
  with sd1 have rd: "readdirSync ?S fs1 sourcePath = Inr (entriesOf sourcePath fs)"
    by (simp add: fs_readdirSync_def isDirAt_def)
  define found2 where "found2 = map (mappingOf ?S fs1 sourcePath ?er ?el) ?es"
  from discoverMappings_ok [OF ex1 rd, of remotePrefix localPrefix]
  have d2: "discoverMappings ?S fs1 sourcePath remotePrefix localPrefix = Inr found2"
    by (simp add: found2_def)
  \<comment> \<open>every mapping is now a correct link or a local directory\<close>
  have settled: "\<not> linkable (mappingOf ?S fs1 sourcePath ?er ?el e)" if e: "e \<in> set ?es" for e
  proof -
    let ?m = "mappingOf ?S fs sourcePath ?er ?el e"
    let ?p = "localFullPath ?m" and ?q = "sourceFullPath ?m"
    from e found have mem: "?m \<in> set found" by simp
    from resolves mem have ex: "fs_existsSync fs1 ?p" by auto
    have st: "localState ?m = classify ?S fs ?p ?q" by (rule discovered_mapping(4) [OF d mem])
    have "classify ?S fs1 ?p ?q = SymlinkCorrect \<or> classify ?S fs1 ?p ?q = DirectoryExists"
    proof (cases "linkable ?m")
      case True
      from linkLoop_linked [OF loop dist mem True]
      have "map_of fs1 ?p = Some (Symlink ?q)" .
      with ex show ?thesis by (simp add: classify_nodeSys)
    next
      case False
      have same: "map_of fs1 ?p = map_of fs0 ?p"
      proof (rule linkLoop_frame [OF loop], intro ballI impI)
        fix y assume y: "y \<in> set found" "linkable y"
        with False have "y \<noteq> ?m" by auto
        with dist y(1) mem show "localFullPath y \<noteq> ?p" by (auto simp: distinct_map inj_on_def)
      qed
      from False st have "classify ?S fs ?p ?q = SymlinkCorrect \<or> classify ?S fs ?p ?q = DirectoryExists"
        by (cases "localState ?m") (simp_all add: linkable_def)
      then show ?thesis
      proof
        assume "classify ?S fs ?p ?q = SymlinkCorrect"
        from classify_correct_node [OF this] obtain t where
          t: "map_of fs ?p = Some (Symlink t)" "fs_resolve c t = fs_resolve c ?q" by blast
        from ensureLocalDir_keeps [OF e0 t(1)] same have "map_of fs1 ?p = Some (Symlink t)" by simp
        with ex t(2) show ?thesis by (simp add: classify_nodeSys)
      next
        assume "classify ?S fs ?p ?q = DirectoryExists"
        from classify_directory_node [OF this] obtain k where
          k: "map_of fs ?p = Some k" "\<forall>t. k \<noteq> Symlink t" by blast
        from ensureLocalDir_keeps [OF e0 k(1)] same have "map_of fs1 ?p = Some k" by simp
        with ex k(2) show ?thesis by (cases k) (simp_all add: classify_nodeSys)
      qed
    qed
    then show ?thesis by (auto simp: linkable_def mappingOf_def)
  qed
  then have all2: "\<forall>m \<in> set found2. \<not> linkable m" by (auto simp: found2_def)
  \<comment> \<open>the local projects directory is there\<close>
  have lne: "?lcp \<noteq> []" by (simp add: localClaudeProjects_def)
  have "fs_existsSync fs1 ?lcp"
  proof (cases "map_of fs0 ?lcp = Some Dir")
    case True
    then have "map_of fs1 ?lcp = Some Dir" by (rule linkLoop_dir [OF loop])
    then show ?thesis by (simp add: existsSync_plain)
  next
    case False
    have nolink: "\<forall>m \<in> set found. \<not> linkable m"
    proof (rule ccontr)
      assume "\<not> (\<forall>m \<in> set found. \<not> linkable m)"
      then have some: "\<exists>m \<in> set found. linkable m" by blast
      have "\<forall>m \<in> set found. dirname (localFullPath m) = ?lcp \<and> localFullPath m \<noteq> ?lcp"
      proof
        fix m assume m: "m \<in> set found"
        from discovered_mapping(2,3) [OF d m] dirname_join [of "localDirName m" ?lcp]
        show "dirname (localFullPath m) = ?lcp \<and> localFullPath m \<noteq> ?lcp" by simp
      qed
      from linkLoop_needs_dir [OF loop some this] lne False show False by (simp add: isDirAt_def)
    qed
    from linkLoop_skip_all [OF nolink, of ?S fs0 ?zero] loop have same: "fs1 = fs0" by simp
    have "fs_existsSync fs ?lcp"
    proof (rule ccontr)
      assume "\<not> fs_existsSync fs ?lcp"
      with e0 have "fs_mkdirSync fs ?lcp = Inr fs0" by (simp add: ensureLocalDir_def)
      from mkdirSync_dir [OF this] False show False by simp
    qed
    moreover from this e0 have "fs0 = fs" by (simp add: ensureLocalDir_def)
    ultimately show ?thesis using same by simp
  qed
  then have e1: "ensureLocalDir ?S fs1 = Inr fs1" by (simp add: ensureLocalDir_def)
  have len: "length found2 = length found" by (simp add: found2_def found)
  from linkLoop_skip_all [OF all2, of ?S fs1 ?zero] e1 len
  have "doLink ?S fs1 found2 = (fs1, Inr \<lparr> created = 0, updated = 0, skipped = length found \<rparr>)"
    by (simp add: doLink_def)
  with d2 n have "cmdLink ?S fs1 sourcePath remotePrefix localPrefix =
           (fs1, Inr \<lparr> created = 0, updated = 0, skipped = created r1 + updated r1 + skipped r1 \<rparr>)"
    by (simp add: cmdLink_def)
  with n show ?thesis by simp
qed

theorem link_twice_skips_everything_witness:
  "wfFs exFs
   \<and> ''/r'' \<notin> set (ancestors (localClaudeProjects (nodeSys ''/home/u'' ''/'')))
   \<and> discoverMappings (nodeSys ''/home/u'' ''/'') exFs ''/r'' ''/home/user'' ''/mnt/r'' = Inr exMappings
   \<and> cmdLink (nodeSys ''/home/u'' ''/'') exFs ''/r'' ''/home/user'' ''/mnt/r'' =
        (exFsLinked, Inr \<lparr> created = 1, updated = 1, skipped = 2 \<rparr>)
   \<and> list_all (\<lambda>m. existsSync (nodeSys ''/home/u'' ''/'') exFsLinked (localFullPath m)) exMappings
   \<and> cmdLink (nodeSys ''/home/u'' ''/'') exFsLinked ''/r'' ''/home/user'' ''/mnt/r'' =
        (exFsLinked, Inr \<lparr> created = 0, updated = 0, skipped = 4 \<rparr>)"
proof -
  let ?S = "nodeSys ''/home/u'' ''/''"
  let ?r = "\<lparr> created = 1, updated = 1, skipped = 2 \<rparr>"
  have h1: "wfFs exFs" by (simp add: wfFs_def exFs_def)
  have h3: "''/r'' \<notin> set (ancestors (localClaudeProjects ?S))" by code_simp
  have h4: "discoverMappings ?S exFs ''/r'' ''/home/user'' ''/mnt/r'' = Inr exMappings" by code_simp
  have h5: "cmdLink ?S exFs ''/r'' ''/home/user'' ''/mnt/r'' = (exFsLinked, Inr ?r)" by code_simp
  have h6: "\<forall>m \<in> set exMappings. existsSync ?S exFsLinked (localFullPath m)" by code_simp
  from link_twice_skips_everything [OF h1 h3 h4 h5 h6]
  have "cmdLink ?S exFsLinked ''/r'' ''/home/user'' ''/mnt/r'' =
        (exFsLinked, Inr \<lparr> created = 0, updated = 0, skipped = 4 \<rparr>)" by simp
  with h1 h3 h4 h5 h6 show ?thesis by (simp add: list_all_iff)
qed

text \<open>
  Claim C2 as the specification states it fails when the first run skips a mapping: on
  the example the first run creates one link and updates one, and the second run skips
  four mappings, not two.
\<close>

theorem link_twice_counterexample:
  "cmdLink exSys exFs ''/r'' ''/home/user'' ''/mnt/r'' =
      (exFsLinked, Inr \<lparr> created = 1, updated = 1, skipped = 2 \<rparr>)
   \<and> cmdLink exSys exFsLinked ''/r'' ''/home/user'' ''/mnt/r'' =
      (exFsLinked, Inr \<lparr> created = 0, updated = 0, skipped = 4 \<rparr>)
   \<and> cmdLink exSys exFsLinked ''/r'' ''/home/user'' ''/mnt/r'' \<noteq>
      (exFsLinked, Inr \<lparr> created = 0, updated = 0, skipped = 1 + 1 \<rparr>)"
  by code_simp

section \<open>When the link operation returns, and what it has done then\<close>










end
